theory Spec2Isabelle
  imports Main
begin

section \<open>JavaScript values used by the score ledger\<close>

text \<open>
  A JavaScript string is a list of UTF-16 code units. A JavaScript number is an IEEE 754
  double. The numbers of this program are the counters of the score manager, which start
  from 0 or from \<open>parseInt\<close> and change by \<open>+=\<close> only: integers, \<open>NaN\<close> and the two
  infinities. An integer-valued double is \<open>Num x\<close> with its value \<open>x\<close>; negative zero is
  identified with 0, from which neither \<open>+\<close> on these numbers nor their printing tells it
  apart.
\<close>

type_synonym jsstring = "nat list"

datatype jsnum = Num int | NaN | PosInf | NegInf

definition ascii :: "string \<Rightarrow> jsstring" where
  "ascii s = map of_char s"

text \<open>
  Rounding to a double. The doubles at and above \<open>2 ^ 53\<close> are spaced by \<open>ulp\<close>: 2 up to
  \<open>2 ^ 54\<close>, 4 up to \<open>2 ^ 55\<close>, and so on; below \<open>2 ^ 53\<close> every integer is a double.
  \<open>nearest a\<close> is the double nearest to the natural number \<open>a\<close>, the one with the even
  significand when \<open>a\<close> lies half way between two. \<open>number x\<close> is the number value of the
  integer \<open>x\<close>: rounded, and infinite when the rounded value reaches \<open>2 ^ 1024\<close>.
\<close>

function ulp :: "nat \<Rightarrow> nat" where
  "ulp a = (if a < 2 ^ 53 then 1 else 2 * ulp (a div 2))"
  by pat_completeness auto
termination
  by (relation "measure id") auto

declare ulp.simps [simp del]

definition nearest :: "nat \<Rightarrow> nat" where
  "nearest a =
     (let u = ulp a; q = a div u; r = a mod u
      in (if u < 2 * r \<or> (2 * r = u \<and> odd q) then q + 1 else q) * u)"

definition number :: "int \<Rightarrow> jsnum" where
  "number x =
     (let y = nearest (nat \<bar>x\<bar>)
      in if 2 ^ 1024 \<le> y then (if x < 0 then NegInf else PosInf)
         else Num (if x < 0 then - int y else int y))"

text \<open>\<open>a + b\<close>, \<open>a < b\<close> and \<open>a <= b\<close> on numbers. The sum of two integers is rounded; \<open>NaN\<close>
  is absorbing for \<open>+\<close>, the sum of the two infinities is \<open>NaN\<close>, and every comparison with
  \<open>NaN\<close> is false.\<close>

fun js_add :: "jsnum \<Rightarrow> jsnum \<Rightarrow> jsnum" where
  "js_add (Num a) (Num b) = number (a + b)"
| "js_add NaN _ = NaN"
| "js_add _ NaN = NaN"
| "js_add PosInf NegInf = NaN"
| "js_add NegInf PosInf = NaN"
| "js_add PosInf _ = PosInf"
| "js_add _ PosInf = PosInf"
| "js_add NegInf _ = NegInf"
| "js_add _ NegInf = NegInf"

fun js_lt :: "jsnum \<Rightarrow> jsnum \<Rightarrow> bool" where
  "js_lt (Num a) (Num b) = (a < b)"
| "js_lt NegInf (Num b) = True"
| "js_lt NegInf PosInf = True"
| "js_lt (Num a) PosInf = True"
| "js_lt _ _ = False"

fun js_le :: "jsnum \<Rightarrow> jsnum \<Rightarrow> bool" where
  "js_le (Num a) (Num b) = (a \<le> b)"
| "js_le NaN _ = False"
| "js_le _ NaN = False"
| "js_le NegInf _ = True"
| "js_le _ PosInf = True"
| "js_le _ _ = False"

text \<open>The white space that \<open>parseInt\<close> skips (StrWhiteSpaceChar of ECMAScript).\<close>

definition isWhiteSpace :: "nat \<Rightarrow> bool" where
  "isWhiteSpace c \<longleftrightarrow>
     c \<in> {9, 10, 11, 12, 13, 32, 160, 5760, 8232, 8233, 8239, 8287, 12288, 65279}
     \<or> (8192 \<le> c \<and> c \<le> 8202)"

definition isDigit :: "nat \<Rightarrow> bool" where
  "isDigit c \<longleftrightarrow> 48 \<le> c \<and> c \<le> 57"

definition digitsValue :: "nat list \<Rightarrow> int" where
  "digitsValue ds = fold (\<lambda>c a. 10 * a + (int c - 48)) ds 0"

text \<open>\<open>parseInt(s, 10)\<close>: skip white space, read a sign, read the longest run of decimal
  digits; no digit at all gives \<open>NaN\<close>, and whatever follows the digits is ignored. The
  result is the number value of the integer read (ECMAScript lets an implementation read
  only the first 20 significant digits of a longer run).\<close>

definition parseInt :: "jsstring \<Rightarrow> jsnum" where
  "parseInt s =
     (let t = dropWhile isWhiteSpace s;
          sign = (case t of c # _ \<Rightarrow> if c = 45 then - 1 else 1 | [] \<Rightarrow> (1::int));
          u = (case t of c # r \<Rightarrow> if c = 45 \<or> c = 43 then r else t | [] \<Rightarrow> []);
          ds = takeWhile isDigit u
      in if ds = [] then NaN else number (sign * digitsValue ds))"

fun decimal :: "nat \<Rightarrow> jsstring" where
  "decimal n = (if n < 10 then [48 + n] else decimal (n div 10) @ [48 + n mod 10])"

declare decimal.simps [simp del]

text \<open>\<open>Number.prototype.toString()\<close>. An integer below \<open>2 ^ 53\<close> in absolute value is
  printed with all its decimal digits, which is what this definition does for every
  integer. (For a larger double JavaScript prints the shortest decimal that rounds to it,
  with an exponent from \<open>10 ^ 21\<close> on; the statements about stored texts below are
  restricted to the safe numbers, see \<open>safeNumber\<close>.)\<close>

fun toString :: "jsnum \<Rightarrow> jsstring" where
  "toString (Num n) = (if n < 0 then 45 # decimal (nat (- n)) else decimal (nat n))"
| "toString NaN = ascii ''NaN''"
| "toString PosInf = ascii ''Infinity''"
| "toString NegInf = ascii ''-Infinity''"

section \<open>score.js: the ScoreManager\<close>

text \<open>
  \<open>localStorage\<close> is a map from keys to strings. The display element is either absent
  (\<open>null\<close>) or holds a text; the Uyghur labels of the two texts are abstracted to the
  constructors \<open>TotalText\<close> and \<open>ScoreText\<close>. The animation of the display element
  (\<open>animateScore\<close>) touches nothing but the element's style and is left out.
\<close>

type_synonym storage = "jsstring \<rightharpoonup> jsstring"

definition TOTAL_SCORE_KEY :: jsstring where
  "TOTAL_SCORE_KEY = ascii ''uyghurTypingTotalScore''"

datatype display = Blank | TotalText jsnum | ScoreText jsnum

record ScoreManager =
  displayElement :: "display option"
  score :: jsnum
  totalScore :: jsnum

text \<open>\<open>stored ? parseInt(stored, 10) : 0\<close>: \<open>null\<close> and the empty string are falsy.\<close>

definition loadTotalScore :: "storage \<Rightarrow> jsnum" where
  "loadTotalScore ls =
     (case ls TOTAL_SCORE_KEY of
        None \<Rightarrow> Num 0
      | Some stored \<Rightarrow> if stored = [] then Num 0 else parseInt stored)"

definition saveTotalScore :: "ScoreManager \<Rightarrow> storage \<Rightarrow> storage" where
  "saveTotalScore m ls = ls(TOTAL_SCORE_KEY \<mapsto> toString (totalScore m))"

definition updateDisplay :: "bool \<Rightarrow> ScoreManager \<Rightarrow> ScoreManager" where
  "updateDisplay showTotal m =
     (case displayElement m of
        None \<Rightarrow> m
      | Some _ \<Rightarrow>
          m\<lparr>displayElement :=
              Some (if showTotal then TotalText (totalScore m) else ScoreText (score m))\<rparr>)"

definition new_ScoreManager :: "display option \<Rightarrow> storage \<Rightarrow> ScoreManager" where
  "new_ScoreManager el ls =
     updateDisplay True
       \<lparr>displayElement = el, score = Num 0, totalScore = loadTotalScore ls\<rparr>"

definition reset :: "ScoreManager \<Rightarrow> ScoreManager" where
  "reset m = updateDisplay False (m\<lparr>score := Num 0\<rparr>)"

text \<open>\<open>increment(points = 10)\<close>: an omitted argument is \<open>None\<close>, and the argument is a
  number.\<close>

definition increment :: "jsnum option \<Rightarrow> ScoreManager \<times> storage \<Rightarrow> ScoreManager \<times> storage" where
  "increment p ms =
     (let points = (case p of None \<Rightarrow> Num 10 | Some v \<Rightarrow> v);
          m = fst ms;
          m1 = m\<lparr>score := js_add (score m) points, totalScore := js_add (totalScore m) points\<rparr>;
          m2 = updateDisplay False m1
      in (m2, saveTotalScore m2 (snd ms)))"

definition getScore :: "ScoreManager \<Rightarrow> jsnum" where
  "getScore m = score m"

definition getTotalScore :: "ScoreManager \<Rightarrow> jsnum" where
  "getTotalScore m = totalScore m"

section \<open>letter.js: the alphabet\<close>

text \<open>The thirty letters of \<open>LETTERS\<close>, each a one-unit string, by code unit.\<close>

definition allLetters :: "jsstring list" where
  "allLetters = map (\<lambda>c. [c])
     [1576, 1662, 1578, 1580, 1670, 1582, 1583, 1585, 1586, 1688,
      1587, 1588, 1594, 1601, 1602, 1603, 1711, 1709, 1605, 1606,
      1726, 1610, 1575, 1608, 1735, 1734, 1736, 1744, 1609, 1739]"

section \<open>game.js: timers, the document and the game object\<close>

text \<open>The entries of \<open>CONFIG\<close> that the control flow reads; \<open>SPACING\<close>, \<open>WIDTH\<close> and
  \<open>BURST_PARTICLES\<close> only place pixels.\<close>

definition LETTER_COUNT :: nat where "LETTER_COUNT = 7"
definition MAX_ADVANCE :: nat where "MAX_ADVANCE = 7"
definition FLICKER_DELAY :: nat where "FLICKER_DELAY = 7000"
definition FALL_DELAY :: nat where "FALL_DELAY = 10000"

datatype error = TypeError

text \<open>
  The three closures that \<open>startTimer\<close> hands to the timer API. A letter element is a
  number, and \<open>this.letters[this.idx]\<close> out of range is \<open>undefined\<close>, here \<open>None\<close>; reading
  \<open>el.style\<close> of \<open>undefined\<close> throws. The local variable \<open>flickered\<close> is shared by the
  warning closure and the expiry closure of one call of \<open>startTimer\<close>: that cell is named
  by the handle of the call's warning timeout, and \<open>flickered\<close> of the state lists the
  cells that are \<open>true\<close>.
\<close>

datatype callback =
    WarnCb "nat option"
  | ExpiryCb nat "nat option"
  | FlickerCb "nat option"

datatype timer = Timer (due: nat) (period: "nat option") (cb: callback)

text \<open>What an observer of the page and of the host sees: the effects requested on letter
  elements, the call of \<open>onGameOver\<close> with its argument, and uncaught exceptions.\<close>

datatype event =
    Rendered "nat list"
  | Toggle nat
  | Fall nat
  | Burst nat
  | Shift "nat list"
  | GameOver jsnum
  | Uncaught error

text \<open>
  The fields of the game object, followed by the part of the browser it talks to:
  \<open>localStorage\<close>, whether \<open>keyHandler\<close> is registered on the document, the clock in
  milliseconds, the active timers in creation order with their handles, and the trace.
  \<open>onGameOver\<close> is an opaque host function or absent; its calls are recorded in the trace.
  The timeouts that only remove or fade an element after an effect are not modelled.
\<close>

record world =
  seq :: "jsstring list"
  letters :: "nat list"
  idx :: nat
  letterT :: "nat option"
  flicker :: "nat option"
  onGameOver :: bool
  scoreManager :: "ScoreManager option"
  localStorage :: storage
  listening :: bool
  clock :: nat
  timers :: "(nat \<times> timer) list"
  nextHandle :: nat
  flickered :: "nat list"
  nextEl :: nat
  trace :: "event list"

type_synonym outcome = "(error \<times> world) + world"

subsection \<open>The timer API\<close>

definition setTimeout :: "callback \<Rightarrow> nat \<Rightarrow> world \<Rightarrow> world" where
  "setTimeout f delay w =
     w\<lparr>timers := timers w @ [(nextHandle w, Timer (clock w + delay) None f)],
       nextHandle := Suc (nextHandle w)\<rparr>"

definition setInterval :: "callback \<Rightarrow> nat \<Rightarrow> world \<Rightarrow> world" where
  "setInterval f p w =
     w\<lparr>timers := timers w @ [(nextHandle w, Timer (clock w + p) (Some p) f)],
       nextHandle := Suc (nextHandle w)\<rparr>"

text \<open>\<open>clearTimeout\<close> and \<open>clearInterval\<close> share one table of handles; an \<open>undefined\<close>
  or stale handle clears nothing.\<close>

definition clearTimer :: "nat option \<Rightarrow> world \<Rightarrow> world" where
  "clearTimer ho w =
     (case ho of
        None \<Rightarrow> w
      | Some h \<Rightarrow> w\<lparr>timers := filter (\<lambda>e. fst e \<noteq> h) (timers w)\<rparr>)"

subsection \<open>The methods of UyghurTypingGame\<close>

definition resetState :: "world \<Rightarrow> world" where
  "resetState w =
     (let w1 = w\<lparr>seq := [], letters := [], idx := 0\<rparr>;
          w2 = clearTimer (letterT w1) w1
      in clearTimer (flicker w2) w2)"

text \<open>The constructor, on a fresh page: no timer, no listener, nothing rendered.\<close>

definition UyghurTypingGame :: "bool \<Rightarrow> ScoreManager option \<Rightarrow> storage \<Rightarrow> world" where
  "UyghurTypingGame callback manager ls =
     resetState
       \<lparr>seq = [], letters = [], idx = 0, letterT = None, flicker = None,
        onGameOver = callback, scoreManager = manager, localStorage = ls,
        listening = False, clock = 0, timers = [], nextHandle = 1, flickered = [],
        nextEl = 0, trace = []\<rparr>"

text \<open>\<open>newSequence\<close>: \<open>rnd i\<close> stands for the \<open>i\<close>-th value of
  \<open>Math.floor(Math.random() * this.keys.length)\<close>.\<close>

definition newSequence :: "(nat \<Rightarrow> nat) \<Rightarrow> world \<Rightarrow> world" where
  "newSequence rnd w =
     w\<lparr>seq := map (\<lambda>i. allLetters ! (rnd i mod length allLetters)) [0..<LETTER_COUNT]\<rparr>"

definition clearRender :: "world \<Rightarrow> world" where
  "clearRender w =
     (let w1 = w\<lparr>letters := []\<rparr>;
          w2 = clearTimer (letterT w1) w1
      in clearTimer (flicker w2) w2)"

definition startTimer :: "world \<Rightarrow> world" where
  "startTimer w =
     (if idx w \<ge> length (seq w) then w
      else
        let el = (if idx w < length (letters w) then Some (letters w ! idx w) else None);
            wh = nextHandle w;
            w1 = (setTimeout (WarnCb el) FLICKER_DELAY w)\<lparr>letterT := Some wh\<rparr>;
            eh = nextHandle w1
        in (setTimeout (ExpiryCb wh el) FALL_DELAY w1)\<lparr>letterT := Some eh\<rparr>)"

definition render :: "world \<Rightarrow> world" where
  "render w =
     (let w1 = clearRender w;
          els = [nextEl w1 ..< nextEl w1 + length (seq w1)];
          w2 = w1\<lparr>letters := els, nextEl := nextEl w1 + length (seq w1),
                 trace := trace w1 @ [Rendered els]\<rparr>
      in startTimer w2)"

definition start :: "(nat \<Rightarrow> nat) \<Rightarrow> world \<Rightarrow> world" where
  "start rnd w = render (newSequence rnd ((resetState w)\<lparr>listening := True\<rparr>))"

definition shiftLetters :: "world \<Rightarrow> world" where
  "shiftLetters w = w\<lparr>trace := trace w @ [Shift (drop (idx w) (letters w))]\<rparr>"

text \<open>\<open>this.onGameOver?.(this.scoreManager.getScore())\<close>: an absent callback skips the
  whole call, argument included; a present one has its argument evaluated first, and
  \<open>getScore\<close> of \<open>undefined\<close> throws.\<close>

definition endGame :: "world \<Rightarrow> outcome" where
  "endGame w =
     (let w1 = w\<lparr>listening := False\<rparr>
      in if onGameOver w1 then
           (case scoreManager w1 of
              None \<Rightarrow> Inl (TypeError, w1)
            | Some m \<Rightarrow> Inr (w1\<lparr>trace := trace w1 @ [GameOver (getScore m)]\<rparr>))
         else Inr w1)"

definition nextLetter :: "world \<Rightarrow> outcome" where
  "nextLetter w =
     (let w1 = w\<lparr>idx := idx w + 1\<rparr>
      in if idx w1 \<ge> MAX_ADVANCE then endGame w1
         else Inr (startTimer (shiftLetters w1)))"

text \<open>\<open>this.scoreManager?.increment(10)\<close>.\<close>

definition awardPoints :: "world \<Rightarrow> world" where
  "awardPoints w =
     (case scoreManager w of
        None \<Rightarrow> w
      | Some m \<Rightarrow>
          (let r = increment (Some (Num 10)) (m, localStorage w)
           in w\<lparr>scoreManager := Some (fst r), localStorage := snd r\<rparr>))"

definition handleCorrectKey :: "world \<Rightarrow> outcome" where
  "handleCorrectKey w =
     (let el = (if idx w < length (letters w) then Some (letters w ! idx w) else None);
          w1 = clearTimer (letterT w) w;
          w2 = clearTimer (flicker w1) w1
      in case el of
           None \<Rightarrow> Inl (TypeError, w2)
         | Some e \<Rightarrow> nextLetter (awardPoints (w2\<lparr>trace := trace w2 @ [Burst e]\<rparr>)))"

definition keyHandler :: "jsstring \<Rightarrow> world \<Rightarrow> outcome" where
  "keyHandler key w =
     (if idx w \<ge> length (seq w) then Inr w
      else if key = seq w ! idx w then handleCorrectKey w
      else Inr w)"

subsection \<open>The timer callbacks and the event loop\<close>

text \<open>\<open>run_cb h f\<close> runs the closure \<open>f\<close> of the timer with handle \<open>h\<close>.\<close>

fun run_cb :: "nat \<Rightarrow> callback \<Rightarrow> world \<Rightarrow> outcome" where
  "run_cb h (WarnCb el) w =
     (let w1 = w\<lparr>flickered := h # flickered w\<rparr>;
          ih = nextHandle w1
      in Inr ((setInterval (FlickerCb el) 250 w1)\<lparr>flicker := Some ih\<rparr>))"
| "run_cb h (FlickerCb el) w =
     (case el of
        None \<Rightarrow> Inl (TypeError, w)
      | Some e \<Rightarrow> Inr (w\<lparr>trace := trace w @ [Toggle e]\<rparr>))"
| "run_cb h (ExpiryCb wh el) w =
     (let w1 = (if wh \<in> set (flickered w) then clearTimer (flicker w) w else w)
      in case el of
           None \<Rightarrow> Inl (TypeError, w1)
         | Some e \<Rightarrow> nextLetter (w1\<lparr>trace := trace w1 @ [Fall e]\<rparr>))"

text \<open>The timer that runs next: the least due time, the older timer on a tie.\<close>

fun earliest :: "(nat \<times> timer) list \<Rightarrow> (nat \<times> timer) option" where
  "earliest [] = None"
| "earliest (x # xs) =
     (case earliest xs of
        None \<Rightarrow> Some x
      | Some y \<Rightarrow> if due (snd x) \<le> due (snd y) then Some x else Some y)"

text \<open>One turn of the event loop on the timer queue: time passes until the next timer is
  due (if it is not already), a timeout leaves the table, an interval is scheduled again,
  and the closure runs.\<close>

definition fire :: "world \<Rightarrow> outcome" where
  "fire w =
     (case earliest (timers w) of
        None \<Rightarrow> Inr w
      | Some (h, t) \<Rightarrow>
          (let now = max (clock w) (due t);
               ts = (case period t of
                       None \<Rightarrow> filter (\<lambda>e. fst e \<noteq> h) (timers w)
                     | Some p \<Rightarrow>
                         map (\<lambda>e. if fst e = h then (h, Timer (now + p) (Some p) (cb t)) else e)
                           (timers w))
           in run_cb h (cb t) (w\<lparr>clock := now, timers := ts\<rparr>)))"

text \<open>An exception that reaches the event loop is reported and the state stays as the
  handler left it.\<close>

fun settle :: "outcome \<Rightarrow> world" where
  "settle (Inr w) = w"
| "settle (Inl (e, w)) = w\<lparr>trace := trace w @ [Uncaught e]\<rparr>"

text \<open>
  What can happen to a game between its construction and the end of the page: time
  passes, a timer fires, a key goes down on the document, and the host calls the public
  methods the way \<open>ui.js\<close> does (\<open>start\<close>, \<open>resetState\<close>, \<open>clearRender\<close>, removing the
  listener, and \<open>reset\<close> and \<open>saveTotalScore\<close> of the shared score manager).
  \<open>Elapse\<close> lets time pass without running a timer (a browser may run a timer late, never
  early); \<open>Fire\<close> runs the timer that is due next. A keydown reaches \<open>keyHandler\<close> only
  while it is registered. A game is one object: the host of \<open>ui.js\<close> builds a new one for
  every session, which this model renders as \<open>reset\<close> of the score manager followed by
  \<open>start\<close>.
\<close>

datatype action =
    Elapse nat
  | Fire
  | KeyDown jsstring
  | Start "nat \<Rightarrow> nat"
  | ResetState
  | ClearRender
  | RemoveListener
  | ScoreReset
  | ScoreSave

fun step :: "action \<Rightarrow> world \<Rightarrow> world" where
  "step (Elapse d) w = w\<lparr>clock := clock w + d\<rparr>"
| "step Fire w = settle (fire w)"
| "step (KeyDown key) w = (if listening w then settle (keyHandler key w) else w)"
| "step (Start rnd) w = start rnd w"
| "step ResetState w = resetState w"
| "step ClearRender w = clearRender w"
| "step RemoveListener w = w\<lparr>listening := False\<rparr>"
| "step ScoreReset w = w\<lparr>scoreManager := map_option reset (scoreManager w)\<rparr>"
| "step ScoreSave w =
     (case scoreManager w of
        None \<Rightarrow> w
      | Some m \<Rightarrow> w\<lparr>localStorage := saveTotalScore m (localStorage w)\<rparr>)"

definition run :: "action list \<Rightarrow> world \<Rightarrow> world" where
  "run acts w = fold step acts w"

section \<open>Notions used to state the properties\<close>

subsection \<open>The score ledger as a sequence of operations\<close>

text \<open>The four public operations of the ScoreManager, applied to the manager and the
  storage it writes to. The two reads return a value and leave both unchanged.\<close>

datatype ledger_op = OpIncrement "jsnum option" | OpReset | OpGetScore | OpGetTotalScore

text \<open>The points that an operation adds: the argument of \<open>increment\<close> or its default, and
  nothing for the other operations. \<open>amount\<close> reads the integer of a finite number.\<close>

fun points_of :: "ledger_op \<Rightarrow> jsnum" where
  "points_of (OpIncrement None) = Num 10"
| "points_of (OpIncrement (Some v)) = v"
| "points_of _ = Num 0"

fun amount :: "jsnum \<Rightarrow> int" where
  "amount (Num v) = v"
| "amount _ = 0"

fun is_increment :: "ledger_op \<Rightarrow> bool" where
  "is_increment (OpIncrement p) = True"
| "is_increment _ = False"

fun apply_op :: "ledger_op \<Rightarrow> ScoreManager \<times> storage \<Rightarrow> ScoreManager \<times> storage" where
  "apply_op (OpIncrement p) ms = increment p ms"
| "apply_op OpReset ms = (reset (fst ms), snd ms)"
| "apply_op OpGetScore ms = ms"
| "apply_op OpGetTotalScore ms = ms"

text \<open>The safe numbers: \<open>NaN\<close> and the integers below \<open>2 ^ 53\<close> in absolute value, which
  are doubles and are printed by \<open>toString\<close> with all their digits. \<open>isDouble\<close> holds of
  the values a JavaScript number can have.\<close>

fun safeNumber :: "jsnum \<Rightarrow> bool" where
  "safeNumber NaN = True"
| "safeNumber (Num n) = (\<bar>n\<bar> < 2 ^ 53)"
| "safeNumber _ = False"

definition isDouble :: "jsnum \<Rightarrow> bool" where
  "isDouble v = (case v of Num x \<Rightarrow> number x = Num x | _ \<Rightarrow> True)"

text \<open>The cumulative score \<open>t\<close> after \<open>n\<close> matches: 10 has been added \<open>n\<close> times.\<close>

primrec matched_total :: "nat \<Rightarrow> jsnum \<Rightarrow> jsnum" where
  "matched_total 0 t = t"
| "matched_total (Suc n) t = js_add (matched_total n t) (Num 10)"

text \<open>A stored text is malformed when, after white space and one sign, no decimal digit
  follows.\<close>

definition noLeadingInteger :: "jsstring \<Rightarrow> bool" where
  "noLeadingInteger s =
     (case dropWhile isWhiteSpace s of
        [] \<Rightarrow> True
      | c # r \<Rightarrow>
          (case (if c = 45 \<or> c = 43 then r else c # r) of
             [] \<Rightarrow> True
           | d # _ \<Rightarrow> \<not> isDigit d))"

subsection \<open>Runs of the game\<close>

text \<open>The state in which a handler leaves the game, whether it returned or threw.\<close>

fun after :: "outcome \<Rightarrow> world" where
  "after (Inr w) = w"
| "after (Inl (e, w)) = w"

fun is_expiry :: "callback \<Rightarrow> bool" where
  "is_expiry (ExpiryCb _ _) = True"
| "is_expiry _ = False"

text \<open>The invariant on the expiry timeout: when one is pending, it is a timeout, its
  handle is the one held in \<open>letterT\<close>, and the cursor points into the sequence.\<close>

definition expiry_ok :: "world \<Rightarrow> nat \<times> timer \<Rightarrow> bool" where
  "expiry_ok w e \<longleftrightarrow>
     (is_expiry (cb (snd e)) \<longrightarrow>
        period (snd e) = None \<and> letterT w = Some (fst e) \<and> idx w < length (seq w))"

definition no_expiry :: "world \<Rightarrow> bool" where
  "no_expiry w \<longleftrightarrow> (\<forall>e\<in>set (timers w). \<not> is_expiry (cb (snd e)))"

definition inv :: "world \<Rightarrow> bool" where
  "inv w \<longleftrightarrow>
     length (seq w) \<le> MAX_ADVANCE \<and> idx w \<le> length (seq w) \<and>
     (\<forall>e\<in>set (timers w). expiry_ok w e)"

text \<open>What a trace says about a session: the scores handed to \<open>onGameOver\<close>, the number
  of letters consumed by a match (burst) and the number that expired (fall).\<close>

fun gameovers :: "event list \<Rightarrow> jsnum list" where
  "gameovers [] = []"
| "gameovers (GameOver s # es) = s # gameovers es"
| "gameovers (_ # es) = gameovers es"

fun bursts :: "event list \<Rightarrow> nat" where
  "bursts [] = 0"
| "bursts (Burst e # es) = Suc (bursts es)"
| "bursts (_ # es) = bursts es"

fun falls :: "event list \<Rightarrow> nat" where
  "falls [] = 0"
| "falls (Fall e # es) = Suc (falls es)"
| "falls (_ # es) = falls es"

text \<open>Within a session the player presses keys while time passes and timers fire, and the
  host may do what \<open>ui.js\<close> does when a game is over or left (save the cumulative score,
  remove the listener, clear the rendering); what starts or resets a session is excluded.
  A player who never presses a key leaves all of these but the keys.\<close>

fun is_play :: "action \<Rightarrow> bool" where
  "is_play (Start rnd) = False"
| "is_play ResetState = False"
| "is_play ScoreReset = False"
| "is_play _ = True"

fun is_passive :: "action \<Rightarrow> bool" where
  "is_passive (KeyDown key) = False"
| "is_passive a = is_play a"

text \<open>A game that has both its callback and a score manager, as \<open>ui.js\<close> sets it up.\<close>

definition attached :: "world \<Rightarrow> bool" where
  "attached w \<longleftrightarrow> onGameOver w \<and> scoreManager w \<noteq> None"

text \<open>The books of a session whose trace starts at position \<open>k\<close> and whose cumulative
  score was \<open>t\<close> at its start: the cursor counts the consumed letters, the session score
  is ten points per burst, the cumulative score has had 10 added once per burst, and
  \<open>onGameOver\<close> has been called once with the session score if the cursor has reached
  the limit, and not at all otherwise.\<close>

definition acc :: "nat \<Rightarrow> jsnum \<Rightarrow> world \<Rightarrow> bool" where
  "acc k t w \<longleftrightarrow>
     onGameOver w \<and> k \<le> length (trace w) \<and>
     idx w = bursts (drop k (trace w)) + falls (drop k (trace w)) \<and>
     gameovers (drop k (trace w)) =
       (if MAX_ADVANCE \<le> idx w then [Num (10 * int (bursts (drop k (trace w))))] else []) \<and>
     (\<exists>m. scoreManager w = Some m \<and>
          score m = Num (10 * int (bursts (drop k (trace w)))) \<and>
          totalScore m = matched_total (bursts (drop k (trace w))) t)"

subsection \<open>The discipline of the timers\<close>

text \<open>
  A second invariant, on all timers. Handles grow with creation and are never reused;
  only flicker intervals repeat; a pending warning timeout is due at most
  \<open>FLICKER_DELAY\<close> from now; the letters on screen are distinct and were allocated
  before \<open>nextEl\<close>; no pending closure holds a letter that is yet to become active.
  While an expiry timeout is pending (\<open>frame_at\<close>) it belongs to the letter at the
  cursor, every pending warning timeout is older than or equal to its own and due no
  later, and an interval on its letter can only be the one whose handle is in \<open>flicker\<close>,
  started by its own warning, after which no warning timeout is pending at all.
\<close>

fun is_warn :: "callback \<Rightarrow> bool" where
  "is_warn (WarnCb _) = True"
| "is_warn _ = False"

fun is_flicker :: "callback \<Rightarrow> bool" where
  "is_flicker (FlickerCb _) = True"
| "is_flicker _ = False"

fun cb_el :: "callback \<Rightarrow> nat option" where
  "cb_el (WarnCb el) = el"
| "cb_el (ExpiryCb wh el) = el"
| "cb_el (FlickerCb el) = el"

definition base :: "world \<Rightarrow> bool" where
  "base w \<longleftrightarrow>
     sorted_wrt (<) (map fst (timers w)) \<and>
     (\<forall>e\<in>set (timers w). fst e < nextHandle w) \<and>
     (\<forall>h\<in>set (flickered w). h < nextHandle w \<and> h \<notin> fst ` set (timers w)) \<and>
     (\<forall>e\<in>set (timers w). is_warn (cb (snd e)) \<longrightarrow> due (snd e) \<le> clock w + FLICKER_DELAY) \<and>
     (\<forall>e\<in>set (timers w). period (snd e) \<noteq> None \<longrightarrow> is_flicker (cb (snd e))) \<and>
     (\<forall>x\<in>set (letters w). x < nextEl w) \<and> distinct (letters w) \<and>
     (letters w = [] \<or> length (letters w) = length (seq w))"

definition els_ok :: "nat \<Rightarrow> world \<Rightarrow> bool" where
  "els_ok n w \<longleftrightarrow>
     (\<forall>e\<in>set (timers w). \<forall>x. cb_el (cb (snd e)) = Some x \<longrightarrow>
        x < nextEl w \<and> x \<notin> set (drop n (letters w)))"

definition frame_at :: "world \<Rightarrow> nat \<times> timer \<Rightarrow> nat \<Rightarrow> nat option \<Rightarrow> bool" where
  "frame_at w e wh el \<longleftrightarrow>
     idx w < length (letters w) \<and> el = Some (letters w ! idx w) \<and>
     (\<forall>e'\<in>set (timers w). is_warn (cb (snd e')) \<longrightarrow>
        fst e' \<le> wh \<and> due (snd e') + (FALL_DELAY - FLICKER_DELAY) \<le> due (snd e) \<and>
        (fst e' = wh \<longrightarrow> due (snd e') + (FALL_DELAY - FLICKER_DELAY) = due (snd e))) \<and>
     (\<forall>e'\<in>set (timers w). cb (snd e') = WarnCb el \<longrightarrow> fst e' = wh) \<and>
     (\<forall>e'\<in>set (timers w). cb (snd e') = FlickerCb el \<longrightarrow>
        wh \<in> set (flickered w) \<and> flicker w = Some (fst e')) \<and>
     (wh \<in> set (flickered w) \<longrightarrow> (\<forall>e'\<in>set (timers w). \<not> is_warn (cb (snd e'))))"

definition frame_ok :: "world \<Rightarrow> bool" where
  "frame_ok w \<longleftrightarrow>
     (\<forall>e\<in>set (timers w). \<forall>wh el. cb (snd e) = ExpiryCb wh el \<longrightarrow> frame_at w e wh el)"

definition tidy :: "world \<Rightarrow> bool" where
  "tidy w \<longleftrightarrow> base w \<and> els_ok (Suc (idx w)) w \<and> frame_ok w"

text \<open>The two timeouts that \<open>startTimer\<close> arms for the letter at the cursor.\<close>

definition armed :: "world \<Rightarrow> (nat \<times> timer) list" where
  "armed w =
     [(nextHandle w, Timer (clock w + FLICKER_DELAY) None (WarnCb (Some (letters w ! idx w)))),
      (Suc (nextHandle w),
       Timer (clock w + FALL_DELAY) None (ExpiryCb (nextHandle w) (Some (letters w ! idx w))))]"

text \<open>The table after the timer with handle \<open>h\<close> has been replaced by \<open>t'\<close>.\<close>

definition retime :: "nat \<Rightarrow> timer \<Rightarrow> (nat \<times> timer) list \<Rightarrow> (nat \<times> timer) list" where
  "retime h t' ts = map (\<lambda>e. if fst e = h then (h, t') else e) ts"

text \<open>From \<open>w\<close> to \<open>w'\<close> the trace has only grown, and by no burst.\<close>

definition quiet :: "world \<Rightarrow> world \<Rightarrow> bool" where
  "quiet w w' \<longleftrightarrow>
     (\<exists>es. trace w' = trace w @ es \<and> bursts es = 0)"

subsection \<open>A player who matches every symbol\<close>

text \<open>
  While a letter is at the cursor the player waits: time passes, timers fire, and keys
  other than the letter's may go down. A wait is in time when, from the state in which
  the letter became active, it ends before \<open>FALL_DELAY\<close> has passed. Then the key of the
  letter goes down (\<open>press\<close>). \<open>player waits w\<close> is what such a player does from the state
  \<open>w\<close> on, one wait per letter, and \<open>timely waits w\<close> says that every wait is in time.
\<close>

fun is_wait :: "jsstring \<Rightarrow> action \<Rightarrow> bool" where
  "is_wait symb (Elapse d) = True"
| "is_wait symb Fire = True"
| "is_wait symb (KeyDown key) = (key \<noteq> symb)"
| "is_wait symb _ = False"

definition in_time :: "world \<Rightarrow> action list \<Rightarrow> bool" where
  "in_time w wait \<longleftrightarrow>
     idx w < length (seq w) \<and> (\<forall>a\<in>set wait. is_wait (seq w ! idx w) a) \<and>
     clock (run wait w) < clock w + FALL_DELAY"

definition press :: "world \<Rightarrow> action list \<Rightarrow> action list" where
  "press w wait = wait @ (if idx w < length (seq w) then [KeyDown (seq w ! idx w)] else [])"

fun player :: "action list list \<Rightarrow> world \<Rightarrow> action list" where
  "player [] w = []"
| "player (wait # waits) w = press w wait @ player waits (run (press w wait) w)"

fun timely :: "action list list \<Rightarrow> world \<Rightarrow> bool" where
  "timely [] w = True"
| "timely (wait # waits) w = (in_time w wait \<and> timely waits (run (press w wait) w))"

text \<open>No expiry timeout is due before \<open>D\<close>; and the state of a session, whose trace starts
  at position \<open>k\<close>, when its first \<open>i\<close> letters have been matched and letter \<open>i\<close> has just
  become active.\<close>

definition deadline :: "nat \<Rightarrow> world \<Rightarrow> bool" where
  "deadline D w \<longleftrightarrow> (\<forall>e\<in>set (timers w). is_expiry (cb (snd e)) \<longrightarrow> D \<le> due (snd e))"

definition matched :: "nat \<Rightarrow> nat \<Rightarrow> world \<Rightarrow> bool" where
  "matched k i w \<longleftrightarrow>
     inv w \<and> length (seq w) = MAX_ADVANCE \<and> length (letters w) = MAX_ADVANCE \<and> idx w = i \<and>
     (i < MAX_ADVANCE \<longrightarrow> listening w) \<and> deadline (clock w + FALL_DELAY) w \<and>
     k \<le> length (trace w) \<and> bursts (drop k (trace w)) = i"

subsection \<open>Progress of the timer queue\<close>

text \<open>
  How many turns of the timer queue can come before a deadline \<open>D\<close>: a flicker interval
  due at \<open>d\<close> ticks at most once per 250 ms until \<open>D\<close>, a warning timeout fires once
  and then starts such an interval. \<open>load\<close> adds this up over the table. A session is
  \<open>alive\<close> when its sequence is complete and, as long as the cursor is below the limit, an
  expiry timeout is pending.
\<close>

definition wt :: "nat \<Rightarrow> nat \<times> timer \<Rightarrow> nat" where
  "wt D e =
     (if due (snd e) \<le> D then
        (case cb (snd e) of
           WarnCb _ \<Rightarrow> 2 + (D - due (snd e)) div 250
         | FlickerCb _ \<Rightarrow> 1 + (D - due (snd e)) div 250
         | ExpiryCb _ _ \<Rightarrow> 0)
      else 0)"

definition load :: "nat \<Rightarrow> world \<Rightarrow> nat" where
  "load D w = sum_list (map (wt D) (timers w))"

definition periods :: "world \<Rightarrow> bool" where
  "periods w \<longleftrightarrow> (\<forall>e\<in>set (timers w). period (snd e) = None \<or> period (snd e) = Some 250)"

definition alive :: "world \<Rightarrow> bool" where
  "alive w \<longleftrightarrow>
     length (seq w) = MAX_ADVANCE \<and>
     (idx w < MAX_ADVANCE \<longrightarrow> (\<exists>e\<in>set (timers w). is_expiry (cb (snd e))))"

section \<open>Rounding to a double\<close>

lemma ulp_small: "a < 2 ^ 53 \<Longrightarrow> ulp a = 1"
  by (subst ulp.simps) simp

lemma ulp_big: "2 ^ 53 \<le> a \<Longrightarrow> ulp a = 2 * ulp (a div 2)"
  by (subst ulp.simps) simp

lemma ulp_pow: "\<exists>k. ulp a = 2 ^ k"
proof (induction a rule: ulp.induct)
  case (1 a)
  show ?case
  proof (cases "a < 2 ^ 53")
    case True
    then have "ulp a = 2 ^ 0" by (simp add: ulp_small)
    then show ?thesis by blast
  next
    case False
    then obtain k where "ulp (a div 2) = 2 ^ k" using 1 by blast
    then have "ulp a = 2 ^ Suc k" using False by (simp add: ulp_big)
    then show ?thesis by blast
  qed
qed

lemma ulp_pos [simp]: "0 < ulp a"
  using ulp_pow[of a] by auto

lemma ulp_upper: "a < 2 ^ 53 * ulp a"
proof (induction a rule: ulp.induct)
  case (1 a)
  show ?case
  proof (cases "a < 2 ^ 53")
    case True
    then show ?thesis by (simp add: ulp_small)
  next
    case False
    then have "a div 2 < 2 ^ 53 * ulp (a div 2)" using 1 by simp
    then have "a < 2 * (2 ^ 53 * ulp (a div 2))" by linarith
    then show ?thesis using False by (simp add: ulp_big)
  qed
qed

lemma ulp_lower: "2 ^ 53 \<le> a \<Longrightarrow> 2 ^ 52 * ulp a \<le> a"
proof (induction a rule: ulp.induct)
  case (1 a)
  have big: "ulp a = 2 * ulp (a div 2)" using 1(2) by (rule ulp_big)
  show ?case
  proof (cases "a div 2 < 2 ^ 53")
    case True
    then have "ulp (a div 2) = 1" by (rule ulp_small)
    then show ?thesis using 1(2) big by simp
  next
    case False
    then have "2 ^ 52 * ulp (a div 2) \<le> a div 2" using 1 by simp
    then have "2 * (2 ^ 52 * ulp (a div 2)) \<le> a" by linarith
    then show ?thesis using big by simp
  qed
qed


lemma ulp_ge2: "2 ^ 53 \<le> a \<Longrightarrow> 2 \<le> ulp a"
  using ulp_pos[of "a div 2"] by (simp add: ulp_big Suc_le_eq)

lemma pow_lt_exp: "(2::nat) ^ a * 2 ^ j \<le> x \<Longrightarrow> x < 2 ^ b * 2 ^ k \<Longrightarrow> a + j < b + k"
proof -
  assume "(2::nat) ^ a * 2 ^ j \<le> x" "x < 2 ^ b * 2 ^ k"
  then have "(2::nat) ^ (a + j) < 2 ^ (b + k)" by (simp add: power_add)
  then show ?thesis by simp
qed

lemma ulp_eqI:
  assumes "2 ^ 52 * 2 ^ k \<le> a" "a < 2 ^ 53 * 2 ^ k" "0 < k"
  shows "ulp a = 2 ^ k"
proof -
  have "(2::nat) ^ 52 * 2 ^ 1 \<le> 2 ^ 52 * 2 ^ k"
    using assms(3) by (intro mult_le_mono2 power_increasing) simp_all
  then have big: "2 ^ 53 \<le> a" using assms(1) by simp
  obtain j where j: "ulp a = 2 ^ j" using ulp_pow by blast
  have "2 ^ 52 * 2 ^ j \<le> a" "a < 2 ^ 53 * 2 ^ j"
    using ulp_lower[OF big] ulp_upper[of a] by (simp_all add: j)
  then have "52 + j < 53 + k" "52 + k < 53 + j"
    using assms(1,2) pow_lt_exp by blast+
  then show ?thesis using j by simp
qed

lemma ulp_mono:
  assumes "a \<le> b"
  shows "ulp a dvd ulp b"
proof (cases "a < 2 ^ 53")
  case True
  then show ?thesis by (simp add: ulp_small)
next
  case False
  obtain j where j: "ulp a = 2 ^ j" using ulp_pow by blast
  obtain k where k: "ulp b = 2 ^ k" using ulp_pow by blast
  have "2 ^ 52 * 2 ^ j \<le> b" using ulp_lower[of a] False assms by (simp add: j)
  moreover have "b < 2 ^ 53 * 2 ^ k" using ulp_upper[of b] by (simp add: k)
  ultimately have "52 + j < 53 + k" by (rule pow_lt_exp)
  then have "j \<le> k" by simp
  then show ?thesis unfolding j k by (rule le_imp_power_dvd)
qed

lemma nearest_fix: "ulp a dvd a \<Longrightarrow> nearest a = a"
  by (auto simp: nearest_def Let_def)

lemma nearest_small: "a < 2 ^ 53 \<Longrightarrow> nearest a = a"
  by (simp add: nearest_fix ulp_small)

lemma nearest_lower: "a div ulp a * ulp a \<le> nearest a"
  by (simp add: nearest_def Let_def)

lemma nearest_upper: "nearest a \<le> a div ulp a * ulp a + ulp a"
  by (simp add: nearest_def Let_def)

lemma nearest_dvd: "ulp a dvd nearest a"
  by (simp add: nearest_def Let_def)

lemma floor_multiple:
  fixes u :: nat
  assumes "u dvd t" "t \<le> z" "0 < u"
  shows "t \<le> z div u * u"
proof -
  from assms(1) obtain m' where "t = u * m'" ..
  then have m: "t = m' * u" by simp
  define m where "m = m'"
  have m: "t = m * u" using m by (simp add: m_def)
  then have "m \<le> z div u" using assms(2,3) by (simp add: less_eq_div_iff_mult_less_eq)
  then show ?thesis unfolding m by (rule mult_le_mono1)
qed

lemma ceil_multiple:
  fixes u :: nat
  assumes "u dvd t" "z < t" "0 < u"
  shows "z div u * u + u \<le> t"
proof -
  from assms(1) obtain m' where "t = u * m'" ..
  then have m: "t = m' * u" by simp
  define m where "m = m'"
  have m: "t = m * u" using m by (simp add: m_def)
  then have "z div u < m" using assms(2,3) by (simp add: div_less_iff_less_mult)
  then have "(z div u + 1) * u \<le> m * u" by (intro mult_le_mono1) simp
  then show ?thesis unfolding m by simp
qed

lemma nearest_range_lo: "2 ^ 53 \<le> a \<Longrightarrow> 2 ^ 52 * ulp a \<le> nearest a"
proof -
  assume "2 ^ 53 \<le> a"
  then have "2 ^ 52 * ulp a \<le> a" by (rule ulp_lower)
  then have "2 ^ 52 * ulp a \<le> a div ulp a * ulp a"
    by (intro floor_multiple) simp_all
  then show ?thesis using nearest_lower[of a] by linarith
qed

lemma nearest_range_hi: "nearest a \<le> 2 ^ 53 * ulp a"
proof -
  have "a div ulp a * ulp a + ulp a \<le> 2 ^ 53 * ulp a"
    by (intro ceil_multiple ulp_upper) simp_all
  then show ?thesis using nearest_upper[of a] by linarith
qed

lemma nearest_idem: "nearest (nearest a) = nearest a"
proof (cases "a < 2 ^ 53")
  case True
  then show ?thesis by (simp add: nearest_small)
next
  case False
  then have big: "2 ^ 53 \<le> a" by simp
  obtain k where k: "ulp a = 2 ^ k" using ulp_pow by blast
  have kp: "0 < k" using ulp_ge2[OF big] k by (cases k) simp_all
  have lo: "2 ^ 52 * 2 ^ k \<le> nearest a" using nearest_range_lo[OF big] by (simp add: k)
  have hi: "nearest a \<le> 2 ^ 53 * 2 ^ k" using nearest_range_hi[of a] by (simp add: k)
  have "ulp (nearest a) dvd nearest a"
  proof (cases "nearest a < 2 ^ 53 * 2 ^ k")
    case True
    then have "ulp (nearest a) = 2 ^ k" using lo kp by (intro ulp_eqI)
    then show ?thesis using nearest_dvd[of a] by (simp add: k)
  next
    case False
    then have eq: "nearest a = 2 ^ 52 * 2 ^ Suc k" using hi by simp
    have "ulp (nearest a) = 2 ^ Suc k" unfolding eq by (rule ulp_eqI) simp_all
    then show ?thesis by (simp add: eq)
  qed
  then show ?thesis by (rule nearest_fix)
qed

lemma nearest_ge:
  assumes "nearest t = t" "t \<le> z"
  shows "t \<le> nearest z"
proof -
  have dt: "ulp t dvd t" using nearest_dvd[of t] assms(1) by simp
  have "t \<le> z div ulp z * ulp z"
  proof (cases "ulp t = ulp z")
    case True
    then show ?thesis using dt assms(2) by (intro floor_multiple) simp_all
  next
    case False
    obtain j where j: "ulp t = 2 ^ j" using ulp_pow by blast
    obtain k where k: "ulp z = 2 ^ k" using ulp_pow by blast
    have "(2::nat) ^ j dvd 2 ^ k" using ulp_mono[OF assms(2)] by (simp add: j k)
    then have "j \<le> k" by (simp add: dvd_power_iff_le)
    then have jk: "Suc j \<le> k" using False j k by (cases "j = k") simp_all
    then have kbig: "ulp z \<noteq> 1" using k by (cases k) simp_all
    have zbig: "2 ^ 53 \<le> z"
    proof (rule ccontr)
      assume "\<not> 2 ^ 53 \<le> z"
      then have "ulp z = 1" by (simp add: ulp_small)
      then show False using kbig by simp
    qed
    have "t < 2 ^ 53 * 2 ^ j" using ulp_upper[of t] by (simp add: j)
    also have "\<dots> = 2 ^ 52 * 2 ^ Suc j" by simp
    also have "\<dots> \<le> 2 ^ 52 * 2 ^ k"
      using jk by (intro mult_le_mono2 power_increasing) simp_all
    finally have "t < 2 ^ 52 * ulp z" by (simp add: k)
    moreover have "2 ^ 52 * ulp z \<le> z div ulp z * ulp z"
      using ulp_lower[OF zbig] by (intro floor_multiple) simp_all
    ultimately show ?thesis by linarith
  qed
  then show ?thesis using nearest_lower[of z] by linarith
qed

lemma nearest_le:
  assumes "nearest t = t" "z \<le> t"
  shows "nearest z \<le> t"
proof (cases "ulp z dvd z")
  case True
  then show ?thesis using assms(2) by (simp add: nearest_fix)
next
  case False
  then have zt: "z < t" using nearest_dvd[of t] assms by (cases "z = t") auto
  have dt: "ulp t dvd t" using nearest_dvd[of t] assms(1) by simp
  show ?thesis
  proof (cases "ulp t = ulp z")
    case True
    then have "z div ulp z * ulp z + ulp z \<le> t" using dt zt by (intro ceil_multiple) simp_all
    then show ?thesis using nearest_upper[of z] by linarith
  next
    case ne: False
    obtain j where j: "ulp t = 2 ^ j" using ulp_pow by blast
    obtain k where k: "ulp z = 2 ^ k" using ulp_pow by blast
    have "(2::nat) ^ k dvd 2 ^ j" using ulp_mono[OF assms(2)] by (simp add: j k)
    then have "k \<le> j" by (simp add: dvd_power_iff_le)
    then have kj: "Suc k \<le> j" using ne j k by (cases "j = k") simp_all
    then have "ulp t \<noteq> 1" using j by (cases j) simp_all
    then have tbig: "2 ^ 53 \<le> t" using ulp_small[of t] by (cases "t < 2 ^ 53") simp_all
    have "nearest z \<le> 2 ^ 53 * 2 ^ k" using nearest_range_hi[of z] by (simp add: k)
    also have "\<dots> = 2 ^ 52 * 2 ^ Suc k" by simp
    also have "\<dots> \<le> 2 ^ 52 * 2 ^ j"
      using kj by (intro mult_le_mono2 power_increasing) simp_all
    also have "\<dots> \<le> t" using ulp_lower[OF tbig] by (simp add: j)
    finally show ?thesis .
  qed
qed

lemma number_safe: "\<bar>x\<bar> < 2 ^ 53 \<Longrightarrow> number x = Num x"
proof -
  assume a: "\<bar>x\<bar> < 2 ^ 53"
  then have "nat \<bar>x\<bar> < 2 ^ 53" by (simp add: nat_less_iff)
  then have r: "nearest (nat \<bar>x\<bar>) = nat \<bar>x\<bar>" and "nat \<bar>x\<bar> < 2 ^ 1024"
    by (simp_all add: nearest_small)
  then show ?thesis by (simp add: number_def Let_def)
qed

lemma isDouble_Num: "isDouble (Num t) \<longleftrightarrow> nearest (nat \<bar>t\<bar>) = nat \<bar>t\<bar> \<and> nat \<bar>t\<bar> < 2 ^ 1024"
proof -
  define y where "y = nearest (nat \<bar>t\<bar>)"
  define B :: nat where "B = 2 ^ 1024"
  have n: "number t = (if B \<le> y then (if t < 0 then NegInf else PosInf)
                       else Num (if t < 0 then - int y else int y))"
    unfolding number_def Let_def y_def B_def ..
  have "(number t = Num t) \<longleftrightarrow> (y = nat \<bar>t\<bar> \<and> nat \<bar>t\<bar> < B)"
  proof (cases "B \<le> y")
    case True
    then show ?thesis unfolding n by auto
  next
    case False
    then have "(number t = Num t) \<longleftrightarrow> y = nat \<bar>t\<bar>" unfolding n by auto
    then show ?thesis using False by auto
  qed
  then show ?thesis by (simp add: isDouble_def y_def B_def)
qed

lemma isDouble_number: "isDouble (number x)"
proof (cases "2 ^ 1024 \<le> nearest (nat \<bar>x\<bar>)")
  case True
  then show ?thesis by (simp add: number_def isDouble_def Let_def)
next
  case False
  define y where "y = nearest (nat \<bar>x\<bar>)"
  have n: "number x = Num (if x < 0 then - int y else int y)"
    using False by (simp add: number_def Let_def y_def)
  have "nat \<bar>if x < 0 then - int y else int y\<bar> = y" by simp
  moreover have "nearest y = y" unfolding y_def by (rule nearest_idem)
  moreover have "y < 2 ^ 1024" using False by (simp add: y_def)
  ultimately show ?thesis unfolding n isDouble_Num by simp
qed

lemma isDouble_add: "isDouble (js_add a b)"
  by (cases a; cases b) (simp_all add: isDouble_number, simp_all add: isDouble_def)

lemma number_ge:
  assumes "isDouble (Num t)" "t \<le> z"
  shows "js_le (Num t) (number z)"
proof -
  have rt: "nearest (nat \<bar>t\<bar>) = nat \<bar>t\<bar>" and ft: "nat \<bar>t\<bar> < 2 ^ 1024"
    using assms(1) by (simp_all add: isDouble_Num)
  show ?thesis
  proof (cases "z < 0")
    case False
    show ?thesis
    proof (cases "2 ^ 1024 \<le> nearest (nat \<bar>z\<bar>)")
      case True
      then show ?thesis using False by (simp add: number_def Let_def)
    next
      case inf: False
      have "t \<le> int (nearest (nat \<bar>z\<bar>))"
      proof (cases "t < 0")
        case True
        then show ?thesis by linarith
      next
        case tp: False
        have "nat \<bar>t\<bar> \<le> nat \<bar>z\<bar>" using tp False assms(2) by simp
        then have "nat \<bar>t\<bar> \<le> nearest (nat \<bar>z\<bar>)" by (rule nearest_ge[OF rt])
        then show ?thesis using tp by linarith
      qed
      then show ?thesis using False inf by (simp add: number_def Let_def)
    qed
  next
    case True
    then have tn: "t < 0" using assms(2) by simp
    have "nat \<bar>z\<bar> \<le> nat \<bar>t\<bar>" using True tn assms(2) by simp
    then have le: "nearest (nat \<bar>z\<bar>) \<le> nat \<bar>t\<bar>" by (rule nearest_le[OF rt])
    then have "\<not> 2 ^ 1024 \<le> nearest (nat \<bar>z\<bar>)" using ft by linarith
    moreover have "t \<le> - int (nearest (nat \<bar>z\<bar>))" using le tn by linarith
    ultimately show ?thesis using True by (simp add: number_def Let_def)
  qed
qed

lemma js_le_refl: "t \<noteq> NaN \<Longrightarrow> js_le t t"
  by (cases t) simp_all

lemma js_le_trans: "js_le a b \<Longrightarrow> js_le b c \<Longrightarrow> js_le a c"
  by (cases a; cases b; cases c) simp_all

lemma js_le_not_lt: "js_le a b \<Longrightarrow> \<not> js_lt b a"
  by (cases a; cases b) simp_all

lemma js_add_NaN [simp]: "js_add NaN p = NaN" "js_add t NaN = NaN"
  by (cases p; simp) (cases t; simp)

lemma js_add_ge:
  assumes "isDouble t" "js_le (Num 0) p"
  shows "js_add t p = NaN \<or> js_le t (js_add t p)"
proof (cases t)
  case (Num a)
  show ?thesis
  proof (cases p)
    case (Num v)
    then have "a \<le> a + v" using assms(2) by simp
    then have "js_le (Num a) (number (a + v))" using assms(1) \<open>t = Num a\<close> by (intro number_ge) simp_all
    then show ?thesis using Num \<open>t = Num a\<close> by simp
  qed (use assms(2) \<open>t = Num a\<close> in simp_all)
qed (use assms(2) in \<open>cases p; simp\<close>)+

section \<open>Properties of the score ledger\<close>

lemma digitsValue_snoc: "digitsValue (ds @ [c]) = 10 * digitsValue ds + (int c - 48)"
  by (simp add: digitsValue_def)

lemma decimal_digits: "\<forall>c\<in>set (decimal n). isDigit c"
proof (induction n rule: decimal.induct)
  case (1 n)
  show ?case
  proof (cases "n < 10")
    case True
    then show ?thesis by (subst decimal.simps) (simp add: isDigit_def)
  next
    case False
    have "n mod 10 < 10" by simp
    then have "isDigit (48 + n mod 10)" unfolding isDigit_def by linarith
    with False 1 show ?thesis by (subst decimal.simps) simp
  qed
qed

lemma decimal_nonempty: "decimal n \<noteq> []"
  by (subst decimal.simps) simp

lemma decimal_value: "digitsValue (decimal n) = int n"
proof (induction n rule: decimal.induct)
  case (1 n)
  show ?case
  proof (cases "n < 10")
    case True
    then show ?thesis by (subst decimal.simps) (simp add: digitsValue_def)
  next
    case False
    with 1 have "digitsValue (decimal (n div 10)) = int (n div 10)" by simp
    with False show ?thesis
      by (subst decimal.simps) (simp add: digitsValue_snoc zdiv_int zmod_int)
  qed
qed

lemma digit_not_ws: "isDigit c \<Longrightarrow> \<not> isWhiteSpace c"
  by (auto simp: isDigit_def isWhiteSpace_def)

lemma takeWhile_all: "\<forall>c\<in>set xs. P c \<Longrightarrow> takeWhile P xs = xs"
  by (induction xs) auto

lemma parseInt_decimal: "parseInt (decimal n) = number (int n)"
proof -
  obtain c r where cr: "decimal n = c # r" using decimal_nonempty by (cases "decimal n") auto
  have dig: "\<forall>c\<in>set (decimal n). isDigit c" by (rule decimal_digits)
  then have c: "isDigit c" using cr by simp
  then have ws: "\<not> isWhiteSpace c" by (rule digit_not_ws)
  from c have ne: "c \<noteq> 45" "c \<noteq> 43" by (auto simp: isDigit_def)
  have tw: "takeWhile isDigit (c # r) = c # r" using dig cr takeWhile_all[of "c # r" isDigit] by simp
  show ?thesis using decimal_value[of n] unfolding parseInt_def cr
    by (simp add: ws ne tw del: takeWhile.simps)
qed

lemma parseInt_toString_Num: "parseInt (toString (Num n)) = number n"
proof -
  show ?thesis
  proof (cases "n < 0")
    case True
    obtain c r where cr: "decimal (nat (- n)) = c # r" using decimal_nonempty by (cases "decimal (nat (- n))") auto
    have dig: "\<forall>c\<in>set (decimal (nat (- n))). isDigit c" by (rule decimal_digits)
    have tw: "takeWhile isDigit (c # r) = c # r" using dig cr takeWhile_all[of "c # r" isDigit] by simp
    have "\<not> isWhiteSpace 45" by (simp add: isWhiteSpace_def)
    then show ?thesis using True decimal_value[of "nat (- n)"] unfolding parseInt_def
      by (simp add: cr tw del: takeWhile.simps)
  next
    case False
    then show ?thesis using parseInt_decimal[of "nat n"] by simp
  qed
qed

lemma parseInt_toString: "safeNumber v \<Longrightarrow> parseInt (toString v) = v"
proof (cases v)
  case (Num n)
  assume "safeNumber v"
  then show ?thesis using Num by (simp add: parseInt_toString_Num number_safe del: toString.simps)
next
  case NaN
  then show ?thesis
    by (simp add: parseInt_def ascii_def isWhiteSpace_def isDigit_def)
qed simp_all

lemma toString_nonempty: "toString v \<noteq> []"
  by (cases v) (simp_all add: decimal_nonempty ascii_def)

lemma noLeadingInteger_NaN:
  assumes "noLeadingInteger s"
  shows "parseInt s = NaN"
proof (cases "dropWhile isWhiteSpace s")
  case Nil
  show ?thesis unfolding parseInt_def Nil by simp
next
  case (Cons c r)
  show ?thesis
  proof (cases "c = 45 \<or> c = 43")
    case True
    then have "case r of [] \<Rightarrow> True | d # _ \<Rightarrow> \<not> isDigit d"
      using assms unfolding noLeadingInteger_def Cons by auto
    then have "takeWhile isDigit r = []" by (cases r) simp_all
    with True show ?thesis unfolding parseInt_def Cons by auto
  next
    case False
    then have "\<not> isDigit c" using assms unfolding noLeadingInteger_def Cons by simp
    with False show ?thesis unfolding parseInt_def Cons by simp
  qed
qed

text \<open>
  Claim C2, as the code has it. The constructor takes the cumulative counter from
  \<open>loadTotalScore\<close>, which never throws. It yields 0 when nothing is stored under the key
  and when the empty string is stored, and the stored number when the text is the decimal
  rendering of a safe integer. A non-empty text with no leading integer is not turned
  into 0: it yields \<open>NaN\<close>.
\<close>

theorem loadTotalScore_cases:
  "(ls TOTAL_SCORE_KEY = None \<longrightarrow> loadTotalScore ls = Num 0) \<and>
   (ls TOTAL_SCORE_KEY = Some [] \<longrightarrow> loadTotalScore ls = Num 0) \<and>
   (ls TOTAL_SCORE_KEY = Some s \<and> s \<noteq> [] \<and> noLeadingInteger s \<longrightarrow> loadTotalScore ls = NaN) \<and>
   (ls TOTAL_SCORE_KEY = Some (toString (Num n)) \<and> safeNumber (Num n) \<longrightarrow> loadTotalScore ls = Num n) \<and>
   totalScore (new_ScoreManager el ls) = loadTotalScore ls"
  using parseInt_toString[of "Num n"] toString_nonempty[of "Num n"]
  by (auto simp: loadTotalScore_def new_ScoreManager_def updateDisplay_def noLeadingInteger_NaN
      simp del: toString.simps safeNumber.simps split: option.splits)

text \<open>The four cases of C2 at concrete storages.\<close>

theorem loadTotalScore_cases_witness:
  "loadTotalScore Map.empty = Num 0 \<and>
   loadTotalScore (Map.empty(TOTAL_SCORE_KEY \<mapsto> [])) = Num 0 \<and>
   loadTotalScore (Map.empty(TOTAL_SCORE_KEY \<mapsto> ascii ''abc'')) = NaN \<and>
   loadTotalScore (Map.empty(TOTAL_SCORE_KEY \<mapsto> toString (Num 42))) = Num 42"
proof -
  have a: "noLeadingInteger (ascii ''abc'')" "ascii ''abc'' \<noteq> []"
    by (simp_all add: noLeadingInteger_def ascii_def isWhiteSpace_def isDigit_def)
  have b: "safeNumber (Num 42)" by simp
  show ?thesis
    using loadTotalScore_cases[of Map.empty]
      loadTotalScore_cases[of "Map.empty(TOTAL_SCORE_KEY \<mapsto> [])"]
      loadTotalScore_cases[of "Map.empty(TOTAL_SCORE_KEY \<mapsto> ascii ''abc'')" "ascii ''abc''"]
      loadTotalScore_cases[of "Map.empty(TOTAL_SCORE_KEY \<mapsto> toString (Num 42))" _ 42]
      a b
    by (simp del: toString.simps)
qed

text \<open>Claim C2 as stated fails: the malformed text \<open>abc\<close> does not load as 0.\<close>

theorem malformed_total_is_NaN:
  "loadTotalScore (Map.empty(TOTAL_SCORE_KEY \<mapsto> ascii ''abc'')) \<noteq> Num 0"
  by (simp add: loadTotalScore_def parseInt_def ascii_def isWhiteSpace_def isDigit_def)

text \<open>Claim C9 as stated fails: on an empty storage, saving the loaded value writes the
  text \<open>0\<close> under the key, so the stored content changes.\<close>

theorem save_after_load_changes_storage:
  "saveTotalScore (new_ScoreManager None Map.empty) Map.empty \<noteq> Map.empty"
proof
  assume "saveTotalScore (new_ScoreManager None Map.empty) Map.empty = Map.empty"
  then have "saveTotalScore (new_ScoreManager None Map.empty) Map.empty TOTAL_SCORE_KEY = None"
    by simp
  then show False by (simp add: saveTotalScore_def)
qed

text \<open>
  Claim C9, as the code has it. Constructing a manager (which loads) and saving at once
  leaves the in-memory cumulative counter equal to the loaded value, writes the
  canonical text of that value under the key and nothing else, and the content then loads
  to the same value; a second round trip no longer changes the storage.
\<close>

theorem load_save_roundtrip:
  assumes "safeNumber (loadTotalScore ls)"
  shows "let m = new_ScoreManager el ls; ls' = saveTotalScore m ls in
           totalScore m = loadTotalScore ls \<and>
           ls' TOTAL_SCORE_KEY = Some (toString (loadTotalScore ls)) \<and>
           (\<forall>k. k \<noteq> TOTAL_SCORE_KEY \<longrightarrow> ls' k = ls k) \<and>
           loadTotalScore ls' = loadTotalScore ls \<and>
           saveTotalScore (new_ScoreManager el ls') ls' = ls'"
proof -
  define m where "m = new_ScoreManager el ls"
  define ls' where "ls' = saveTotalScore m ls"
  have t: "totalScore m = loadTotalScore ls"
    by (simp add: m_def new_ScoreManager_def updateDisplay_def split: option.splits)
  have k: "ls' TOTAL_SCORE_KEY = Some (toString (loadTotalScore ls))"
    by (simp add: ls'_def saveTotalScore_def t)
  have o: "\<forall>k. k \<noteq> TOTAL_SCORE_KEY \<longrightarrow> ls' k = ls k"
    by (simp add: ls'_def saveTotalScore_def)
  have l: "loadTotalScore ls' = loadTotalScore ls"
    using k toString_nonempty[of "loadTotalScore ls"] parseInt_toString[OF assms]
    by (simp add: loadTotalScore_def del: toString.simps)
  have t': "totalScore (new_ScoreManager el ls') = loadTotalScore ls"
    using l by (simp add: new_ScoreManager_def updateDisplay_def split: option.splits)
  have "saveTotalScore (new_ScoreManager el ls') ls' = ls'"
    using k by (auto simp: saveTotalScore_def t' simp del: toString.simps)
  with t k o l show ?thesis by (simp add: m_def ls'_def Let_def del: toString.simps)
qed

text \<open>The round trip on the stored text \<open>" 7up"\<close>, which loads as 7.\<close>

theorem load_save_roundtrip_witness:
  "safeNumber (loadTotalScore (Map.empty(TOTAL_SCORE_KEY \<mapsto> ascii '' 7up''))) \<and>
   loadTotalScore (saveTotalScore (new_ScoreManager None (Map.empty(TOTAL_SCORE_KEY \<mapsto> ascii '' 7up'')))
      (Map.empty(TOTAL_SCORE_KEY \<mapsto> ascii '' 7up''))) = Num 7"
proof -
  have v: "loadTotalScore (Map.empty(TOTAL_SCORE_KEY \<mapsto> ascii '' 7up'')) = Num 7"
    by (simp add: loadTotalScore_def parseInt_def ascii_def isWhiteSpace_def isDigit_def digitsValue_def
        number_safe)
  then have h: "safeNumber (loadTotalScore (Map.empty(TOTAL_SCORE_KEY \<mapsto> ascii '' 7up'')))" by simp
  show ?thesis
    using h load_save_roundtrip[OF h, of None] v by (simp add: Let_def)
qed

lemma matched_total_NaN [simp]: "matched_total n NaN = NaN"
  by (induction n) simp_all

lemma matched_total_safe:
  "\<bar>t\<bar> + 10 * int n < 2 ^ 53 \<Longrightarrow> matched_total n (Num t) = Num (t + 10 * int n)"
proof (induction n)
  case 0
  then show ?case by simp
next
  case (Suc n)
  then have "matched_total n (Num t) = Num (t + 10 * int n)" by simp
  moreover have "\<bar>t + 10 * int n + 10\<bar> < 2 ^ 53" using Suc.prems by simp
  ultimately show ?case by (simp add: number_safe add.assoc)
qed

lemma isDouble_load: "isDouble (loadTotalScore ls)"
proof -
  have "isDouble NaN" "isDouble (Num 0)" by (simp_all add: isDouble_def number_safe)
  then show ?thesis
    by (simp add: loadTotalScore_def parseInt_def Let_def isDouble_number split: option.splits)
qed

lemma apply_op_total:
  "totalScore (fst (apply_op op ms)) =
     (if is_increment op then js_add (totalScore (fst ms)) (points_of op) else totalScore (fst ms))"
  by (cases op rule: points_of.cases)
     (simp_all add: increment_def reset_def updateDisplay_def Let_def split: option.splits)

lemma apply_op_score:
  "score (fst (apply_op op ms)) =
     (if is_increment op then js_add (score (fst ms)) (points_of op)
      else if op = OpReset then Num 0 else score (fst ms))"
  by (cases op rule: points_of.cases)
     (simp_all add: increment_def reset_def updateDisplay_def Let_def split: option.splits)

lemma apply_op_isDouble:
  "isDouble (totalScore (fst ms)) \<Longrightarrow> isDouble (totalScore (fst (apply_op op ms)))"
  by (simp add: apply_op_total isDouble_add)

lemma fold_apply_op_isDouble:
  "isDouble (totalScore (fst ms)) \<Longrightarrow> isDouble (totalScore (fst (fold apply_op ops ms)))"
  by (induction ops arbitrary: ms) (simp_all add: apply_op_isDouble)

lemma fold_apply_op_NaN:
  "totalScore (fst ms) = NaN \<Longrightarrow> totalScore (fst (fold apply_op ops ms)) = NaN"
  by (induction ops arbitrary: ms) (simp_all add: apply_op_total)

lemma fold_apply_op_ge:
  assumes "isDouble (totalScore (fst ms))" "\<forall>op\<in>set ops. js_le (Num 0) (points_of op)"
  shows "totalScore (fst (fold apply_op ops ms)) = NaN \<or>
         js_le (totalScore (fst ms)) (totalScore (fst (fold apply_op ops ms)))"
  using assms
proof (induction ops arbitrary: ms)
  case Nil
  then show ?case by (cases "totalScore (fst ms)") simp_all
next
  case (Cons op ops)
  define ms1 where "ms1 = apply_op op ms"
  have d1: "isDouble (totalScore (fst ms1))"
    unfolding ms1_def using Cons.prems(1) by (rule apply_op_isDouble)
  have nn: "js_le (Num 0) (points_of op)" using Cons.prems(2) by simp
  have s1: "totalScore (fst ms1) = NaN \<or> js_le (totalScore (fst ms)) (totalScore (fst ms1))"
  proof (cases "is_increment op")
    case True
    then show ?thesis unfolding ms1_def apply_op_total
      using js_add_ge[OF Cons.prems(1) nn] by simp
  next
    case False
    then show ?thesis unfolding ms1_def apply_op_total
      by (cases "totalScore (fst ms)") simp_all
  qed
  have ih: "totalScore (fst (fold apply_op ops ms1)) = NaN \<or>
            js_le (totalScore (fst ms1)) (totalScore (fst (fold apply_op ops ms1)))"
    using Cons.IH[OF d1] Cons.prems(2) by simp
  show ?case
  proof (cases "totalScore (fst ms1) = NaN")
    case True
    then show ?thesis using fold_apply_op_NaN[of ms1 ops] by (simp add: ms1_def)
  next
    case False
    then have "js_le (totalScore (fst ms)) (totalScore (fst ms1))" using s1 by simp
    then show ?thesis using ih js_le_trans by (fastforce simp: ms1_def)
  qed
qed

lemma sum_amount_nonneg:
  "\<forall>op\<in>set ops. js_le (Num 0) (points_of op) \<Longrightarrow> 0 \<le> sum_list (map (\<lambda>op. amount (points_of op)) ops)"
proof (induction ops)
  case Nil
  then show ?case by simp
next
  case (Cons op ops)
  have "js_le (Num 0) (points_of op)" using Cons.prems by simp
  then have "0 \<le> amount (points_of op)" by (cases "points_of op") simp_all
  then show ?case using Cons by simp
qed

lemma fold_apply_op_exact:
  assumes "\<forall>op\<in>set ops. js_le (Num 0) (points_of op)" "\<forall>op\<in>set ops. \<exists>v. points_of op = Num v"
    and "totalScore (fst ms) = Num t" "\<bar>t\<bar> < 2 ^ 53"
    and "\<bar>t + sum_list (map (\<lambda>op. amount (points_of op)) ops)\<bar> < 2 ^ 53"
  shows "totalScore (fst (fold apply_op ops ms)) = Num (t + sum_list (map (\<lambda>op. amount (points_of op)) ops))"
  using assms
proof (induction ops arbitrary: ms t)
  case Nil
  then show ?case by simp
next
  case (Cons op ops)
  obtain v where v: "points_of op = Num v" using Cons.prems(2) by auto
  have v0: "0 \<le> v" using Cons.prems(1) v by simp
  have r0: "0 \<le> sum_list (map (\<lambda>op. amount (points_of op)) ops)"
    using Cons.prems(1) by (intro sum_amount_nonneg) simp
  have sm: "\<bar>t + v\<bar> < 2 ^ 53" using Cons.prems(4,5) v v0 r0 by simp
  have t1: "totalScore (fst (apply_op op ms)) = Num (t + v)"
  proof (cases "is_increment op")
    case True
    then show ?thesis using Cons.prems(3) v sm by (simp add: apply_op_total number_safe)
  next
    case False
    then have "v = 0" using v by (cases op) simp_all
    then show ?thesis using False Cons.prems(3) by (simp add: apply_op_total)
  qed
  have "totalScore (fst (fold apply_op ops (apply_op op ms))) =
          Num (t + v + sum_list (map (\<lambda>op. amount (points_of op)) ops))"
    using Cons.prems(1,2,5) v by (intro Cons.IH[OF _ _ t1 sm]) (simp_all add: add.assoc)
  then show ?case using v by (simp add: add.assoc)
qed

text \<open>
  Claim C8. Take any state of the ledger: a manager as constructed, after any operations
  \<open>pre\<close>. Along every sequence of operations whose increments are non-negative numbers
  the cumulative score never becomes smaller (in JavaScript's \<open><\<close>): it is at least what
  it was (in JavaScript's \<open><=\<close>), or it is \<open>NaN\<close>, which it stays once it is. It changes
  only through the increments, and by the same addition as the session counter: an
  increment adds its points to both counters, \<open>reset\<close> zeroes the session counter and
  leaves the cumulative counter alone, and the reads change nothing. Each of the two sums
  is rounded on its own. While the cumulative score stays a safe integer nothing is
  rounded: it is the earlier value plus the sum of the increments.
\<close>

theorem total_monotone:
  assumes "\<forall>op\<in>set ops. js_le (Num 0) (points_of op)"
  shows "(let ms = fold apply_op pre (new_ScoreManager el ls, st)
          in \<not> js_lt (totalScore (fst (fold apply_op ops ms))) (totalScore (fst ms)) \<and>
             (totalScore (fst (fold apply_op ops ms)) = NaN \<or>
              js_le (totalScore (fst ms)) (totalScore (fst (fold apply_op ops ms))))) \<and>
         score (fst (apply_op (OpIncrement p) ms')) = js_add (score (fst ms')) (points_of (OpIncrement p)) \<and>
         totalScore (fst (apply_op (OpIncrement p) ms')) =
           js_add (totalScore (fst ms')) (points_of (OpIncrement p)) \<and>
         score (fst (apply_op OpReset ms')) = Num 0 \<and>
         totalScore (fst (apply_op OpReset ms')) = totalScore (fst ms') \<and>
         totalScore (reset (fst ms')) = totalScore (fst ms') \<and>
         apply_op OpGetScore ms' = ms' \<and> apply_op OpGetTotalScore ms' = ms' \<and>
         getScore (fst ms') = score (fst ms') \<and> getTotalScore (fst ms') = totalScore (fst ms') \<and>
         ((\<forall>op\<in>set ops. \<exists>v. points_of op = Num v) \<and> totalScore (fst ms') = Num t \<and> \<bar>t\<bar> < 2 ^ 53 \<and>
          \<bar>t + sum_list (map (\<lambda>op. amount (points_of op)) ops)\<bar> < 2 ^ 53 \<longrightarrow>
            totalScore (fst (fold apply_op ops ms')) =
              Num (t + sum_list (map (\<lambda>op. amount (points_of op)) ops)))"
proof -
  define ms where "ms = fold apply_op pre (new_ScoreManager el ls, st)"
  have "isDouble (totalScore (new_ScoreManager el ls))"
    by (simp add: new_ScoreManager_def updateDisplay_def isDouble_load split: option.splits)
  then have d: "isDouble (totalScore (fst ms))"
    unfolding ms_def by (intro fold_apply_op_isDouble) simp
  have ge: "totalScore (fst (fold apply_op ops ms)) = NaN \<or>
            js_le (totalScore (fst ms)) (totalScore (fst (fold apply_op ops ms)))"
    by (rule fold_apply_op_ge[OF d assms])
  then have lt: "\<not> js_lt (totalScore (fst (fold apply_op ops ms))) (totalScore (fst ms))"
    using js_le_not_lt by fastforce
  have ex: "(\<forall>op\<in>set ops. \<exists>v. points_of op = Num v) \<and> totalScore (fst ms') = Num t \<and> \<bar>t\<bar> < 2 ^ 53 \<and>
          \<bar>t + sum_list (map (\<lambda>op. amount (points_of op)) ops)\<bar> < 2 ^ 53 \<longrightarrow>
            totalScore (fst (fold apply_op ops ms')) =
              Num (t + sum_list (map (\<lambda>op. amount (points_of op)) ops))"
    using fold_apply_op_exact[OF assms, of ms' t] by blast
  have r: "totalScore (reset (fst ms')) = totalScore (fst ms')"
    by (simp add: reset_def updateDisplay_def split: option.splits)
  have g: "apply_op OpGetScore ms' = ms'" "apply_op OpGetTotalScore ms' = ms'" by simp_all
  show ?thesis
    unfolding Let_def ms_def[symmetric]
    using ge lt ex r g
    by (simp add: apply_op_total apply_op_score getScore_def getTotalScore_def del: apply_op.simps)
qed

text \<open>C8 on the sequence increment(10), reset, increment(), read, from an empty storage and
  from the stored total \<open>9007199254740991\<close>, where the first addition of 10 is rounded: the
  cumulative score grows by 19 while the session counter is 10 after each increment.\<close>

theorem total_monotone_witness:
  "totalScore (fst (fold apply_op [OpIncrement (Some (Num 10)), OpReset, OpIncrement None, OpGetTotalScore]
     (new_ScoreManager None Map.empty, Map.empty))) = Num 20 \<and>
   \<not> js_lt (totalScore (fst (fold apply_op [OpIncrement (Some (Num 10)), OpReset, OpIncrement None, OpGetTotalScore]
     (fold apply_op [] (new_ScoreManager None (Map.empty(TOTAL_SCORE_KEY \<mapsto> ascii ''9007199254740991'')), Map.empty)))))
     (Num 9007199254740991) \<and>
   totalScore (fst (fold apply_op [OpIncrement (Some (Num 10)), OpReset, OpIncrement None, OpGetTotalScore]
     (fold apply_op [] (new_ScoreManager None (Map.empty(TOTAL_SCORE_KEY \<mapsto> ascii ''9007199254740991'')), Map.empty)))) =
     Num 9007199254741010"
proof -
  define ops where "ops = [OpIncrement (Some (Num 10)), OpReset, OpIncrement None, OpGetTotalScore]"
  have h: "\<forall>op\<in>set ops. js_le (Num 0) (points_of op)"
    by (simp add: ops_def)
  have f: "\<forall>op\<in>set ops. \<exists>v. points_of op = Num v" by (simp add: ops_def)
  have t: "totalScore (new_ScoreManager None Map.empty) = Num 0"
    by (simp add: new_ScoreManager_def updateDisplay_def loadTotalScore_def)
  have s: "sum_list (map (\<lambda>op. amount (points_of op)) ops) = 20" by (simp add: ops_def)
  have t2: "totalScore (new_ScoreManager None (Map.empty(TOTAL_SCORE_KEY \<mapsto> ascii ''9007199254740991''))) =
            Num 9007199254740991"
    by (simp add: new_ScoreManager_def updateDisplay_def loadTotalScore_def parseInt_def ascii_def
        isWhiteSpace_def isDigit_def digitsValue_def number_safe)
  have "totalScore (fst (fold apply_op ops (new_ScoreManager None Map.empty, Map.empty))) = Num 20"
    using total_monotone[OF h, of "[]" None Map.empty Map.empty _ "(new_ScoreManager None Map.empty, Map.empty)" 0]
      f t s by simp
  moreover have "\<not> js_lt (totalScore (fst (fold apply_op ops
     (fold apply_op [] (new_ScoreManager None (Map.empty(TOTAL_SCORE_KEY \<mapsto> ascii ''9007199254740991'')), Map.empty)))))
     (Num 9007199254740991)"
    using total_monotone[OF h, of "[]" None "Map.empty(TOTAL_SCORE_KEY \<mapsto> ascii ''9007199254740991'')" Map.empty] t2
    unfolding Let_def by simp
  moreover have "totalScore (fst (fold apply_op ops
     (fold apply_op [] (new_ScoreManager None (Map.empty(TOTAL_SCORE_KEY \<mapsto> ascii ''9007199254740991'')), Map.empty)))) =
     Num 9007199254741010"
    using t2 unfolding ops_def
    by (simp add: apply_op_total number_def nearest_def ulp_small ulp_big del: apply_op.simps)
  ultimately show ?thesis unfolding ops_def by blast
qed

section \<open>The expiry invariant\<close>

lemma clearTimer_upd:
  "clearTimer ho w =
     w\<lparr>timers := (case ho of None \<Rightarrow> timers w | Some h \<Rightarrow> filter (\<lambda>e. fst e \<noteq> h) (timers w))\<rparr>"
  by (cases ho) (simp_all add: clearTimer_def)

lemma set_clear_subset:
  "set (case ho of None \<Rightarrow> ts | Some h \<Rightarrow> filter (\<lambda>e. fst e \<noteq> h) ts) \<subseteq> set ts"
  by (cases ho) auto

lemma no_expiry_inv:
  "no_expiry w \<Longrightarrow> length (seq w) \<le> MAX_ADVANCE \<Longrightarrow> idx w \<le> length (seq w) \<Longrightarrow> inv w"
  by (simp add: inv_def no_expiry_def expiry_ok_def)

lemma clear_letterT_no_expiry:
  assumes "\<forall>e\<in>set (timers w). is_expiry (cb (snd e)) \<longrightarrow> letterT w = Some (fst e)"
  shows "no_expiry (clearTimer (letterT w) w)"
  using assms by (cases "letterT w") (auto simp: no_expiry_def clearTimer_def)

lemma no_expiry_clear: "no_expiry w \<Longrightarrow> no_expiry (clearTimer ho w)"
  using set_clear_subset[where ho=ho and ts="timers w"] by (auto simp: no_expiry_def clearTimer_upd)

lemma inv_expiry_handle:
  "inv w \<Longrightarrow> \<forall>e\<in>set (timers w). is_expiry (cb (snd e)) \<longrightarrow> letterT w = Some (fst e)"
  by (simp add: inv_def expiry_ok_def)

lemma startTimer_inv:
  assumes "no_expiry w" "length (seq w) \<le> MAX_ADVANCE" "idx w \<le> length (seq w)"
  shows "inv (startTimer w)"
  using assms
  by (auto simp: startTimer_def inv_def no_expiry_def expiry_ok_def setTimeout_def Let_def)

lemma startTimer_fields [simp]:
  "seq (startTimer w) = seq w" "idx (startTimer w) = idx w" "letters (startTimer w) = letters w"
  "scoreManager (startTimer w) = scoreManager w" "localStorage (startTimer w) = localStorage w"
  "trace (startTimer w) = trace w" "onGameOver (startTimer w) = onGameOver w"
  "listening (startTimer w) = listening w" "clock (startTimer w) = clock w"
  by (simp_all add: startTimer_def setTimeout_def Let_def)

lemma resetState_fields [simp]:
  "seq (resetState w) = []" "idx (resetState w) = 0" "letters (resetState w) = []"
  "scoreManager (resetState w) = scoreManager w" "localStorage (resetState w) = localStorage w"
  "trace (resetState w) = trace w" "onGameOver (resetState w) = onGameOver w"
  "listening (resetState w) = listening w" "nextEl (resetState w) = nextEl w"
  by (simp_all add: resetState_def clearTimer_upd Let_def)

lemma resetState_inv: "inv w \<Longrightarrow> inv (resetState w)"
proof -
  assume i: "inv w"
  let ?w1 = "w\<lparr>seq := [], letters := [], idx := 0\<rparr>"
  have "no_expiry (clearTimer (letterT ?w1) ?w1)"
    by (rule clear_letterT_no_expiry) (use inv_expiry_handle[OF i] in simp)
  then have "no_expiry (resetState w)"
    unfolding resetState_def Let_def by (rule no_expiry_clear)
  then show ?thesis
    by (rule no_expiry_inv) simp_all
qed

lemma resetState_no_expiry: "inv w \<Longrightarrow> no_expiry (resetState w)"
proof -
  assume i: "inv w"
  let ?w1 = "w\<lparr>seq := [], letters := [], idx := 0\<rparr>"
  have "no_expiry (clearTimer (letterT ?w1) ?w1)"
    by (rule clear_letterT_no_expiry) (use inv_expiry_handle[OF i] in simp)
  then show "no_expiry (resetState w)"
    unfolding resetState_def Let_def by (rule no_expiry_clear)
qed

lemma clearRender_no_expiry:
  assumes "\<forall>e\<in>set (timers w). is_expiry (cb (snd e)) \<longrightarrow> letterT w = Some (fst e)"
  shows "no_expiry (clearRender w)"
proof -
  let ?w1 = "w\<lparr>letters := []\<rparr>"
  have "no_expiry (clearTimer (letterT ?w1) ?w1)"
    by (rule clear_letterT_no_expiry) (use assms in simp)
  then show ?thesis
    unfolding clearRender_def Let_def by (rule no_expiry_clear)
qed

lemma clearRender_fields [simp]:
  "seq (clearRender w) = seq w" "idx (clearRender w) = idx w" "letters (clearRender w) = []"
  "scoreManager (clearRender w) = scoreManager w" "localStorage (clearRender w) = localStorage w"
  "trace (clearRender w) = trace w" "onGameOver (clearRender w) = onGameOver w"
  "listening (clearRender w) = listening w" "nextEl (clearRender w) = nextEl w"
  by (simp_all add: clearRender_def clearTimer_upd Let_def)

lemma clearRender_inv: "inv w \<Longrightarrow> inv (clearRender w)"
  by (rule no_expiry_inv[OF clearRender_no_expiry[OF inv_expiry_handle]]) (simp_all add: inv_def)

lemma no_expiry_timers: "timers w' = timers w \<Longrightarrow> no_expiry w' = no_expiry w"
  by (simp add: no_expiry_def)

lemma newSequence_length [simp]: "length (seq (newSequence rnd w)) = LETTER_COUNT"
  by (simp add: newSequence_def)

lemma start_inv: "inv w \<Longrightarrow> inv (start rnd w)"
proof -
  assume i: "inv w"
  let ?w1 = "newSequence rnd ((resetState w)\<lparr>listening := True\<rparr>)"
  let ?w2 = "clearRender ?w1"
  let ?els = "[nextEl ?w2 ..< nextEl ?w2 + length (seq ?w2)]"
  let ?w3 = "?w2\<lparr>letters := ?els, nextEl := nextEl ?w2 + length (seq ?w2),
                 trace := trace ?w2 @ [Rendered ?els]\<rparr>"
  have "no_expiry ?w1 = no_expiry (resetState w)"
    by (rule no_expiry_timers) (simp add: newSequence_def)
  then have ne: "no_expiry ?w1" using resetState_no_expiry[OF i] by simp
  have "no_expiry ?w2"
    by (rule clearRender_no_expiry) (use ne in \<open>simp add: no_expiry_def\<close>)
  moreover have "no_expiry ?w3 = no_expiry ?w2"
    by (rule no_expiry_timers) simp
  ultimately have ne3: "no_expiry ?w3" by simp
  have "idx ?w3 = 0" by (simp add: newSequence_def)
  moreover have "length (seq ?w3) = LETTER_COUNT" by simp
  ultimately have "inv (startTimer ?w3)"
    using ne3 by (intro startTimer_inv) (simp_all add: LETTER_COUNT_def MAX_ADVANCE_def)
  then show ?thesis by (simp add: start_def render_def Let_def)
qed


lemma inv_settle: "inv (settle out) = inv (after out)"
  by (cases out) (auto simp: inv_def expiry_ok_def)

lemma no_expiry_settle: "no_expiry (settle out) = no_expiry (after out)"
  by (cases out) (auto simp: no_expiry_def)

lemma endGame_after:
  "timers (after (endGame w)) = timers w" "seq (after (endGame w)) = seq w"
  "idx (after (endGame w)) = idx w" "letterT (after (endGame w)) = letterT w"
  by (simp_all add: endGame_def Let_def split: option.splits)

lemma awardPoints_fields [simp]:
  "timers (awardPoints w) = timers w" "seq (awardPoints w) = seq w"
  "idx (awardPoints w) = idx w" "letterT (awardPoints w) = letterT w"
  "letters (awardPoints w) = letters w" "trace (awardPoints w) = trace w"
  "onGameOver (awardPoints w) = onGameOver w" "flicker (awardPoints w) = flicker w"
  by (simp_all add: awardPoints_def Let_def split: option.splits)

lemma nextLetter_inv:
  assumes "no_expiry w" "length (seq w) \<le> MAX_ADVANCE" "idx w < length (seq w)"
  shows "inv (after (nextLetter w))"
proof (cases "idx w + 1 \<ge> MAX_ADVANCE")
  case True
  let ?w1 = "w\<lparr>idx := idx w + 1\<rparr>"
  have "no_expiry (after (endGame ?w1))"
    using assms(1) by (simp add: no_expiry_def endGame_after)
  then have "inv (after (endGame ?w1))"
    by (rule no_expiry_inv) (use assms in \<open>simp_all add: endGame_after\<close>)
  with True show ?thesis by (simp add: nextLetter_def Let_def)
next
  case False
  let ?w1 = "shiftLetters (w\<lparr>idx := idx w + 1\<rparr>)"
  have "no_expiry ?w1" using assms(1) by (simp add: no_expiry_def shiftLetters_def)
  then have "inv (startTimer ?w1)"
    by (rule startTimer_inv) (use assms in \<open>simp_all add: shiftLetters_def\<close>)
  with False show ?thesis by (simp add: nextLetter_def Let_def)
qed

lemma handleCorrectKey_inv:
  assumes "inv w" "idx w < length (seq w)"
  shows "inv (after (handleCorrectKey w))"
proof -
  let ?w2 = "clearTimer (flicker (clearTimer (letterT w) w)) (clearTimer (letterT w) w)"
  have ne: "no_expiry ?w2"
    by (intro no_expiry_clear clear_letterT_no_expiry inv_expiry_handle assms)
  have f: "seq ?w2 = seq w" "idx ?w2 = idx w"
    by (simp_all add: clearTimer_upd)
  show ?thesis
  proof (cases "idx w < length (letters w)")
    case False
    have "inv ?w2" by (rule no_expiry_inv[OF ne]) (use assms f in \<open>simp_all add: inv_def\<close>)
    with False show ?thesis by (simp add: handleCorrectKey_def Let_def)
  next
    case True
    let ?w3 = "awardPoints (?w2\<lparr>trace := trace ?w2 @ [Burst (letters w ! idx w)]\<rparr>)"
    have "no_expiry ?w3" using ne by (simp add: no_expiry_def)
    then have "inv (after (nextLetter ?w3))"
      by (rule nextLetter_inv) (use assms f in \<open>simp_all add: inv_def\<close>)
    with True show ?thesis by (simp add: handleCorrectKey_def Let_def)
  qed
qed

lemma keyHandler_inv: "inv w \<Longrightarrow> inv (after (keyHandler key w))"
  by (simp add: keyHandler_def handleCorrectKey_inv)

lemma earliest_mem: "earliest ts = Some x \<Longrightarrow> x \<in> set ts"
  by (induction ts arbitrary: x) (auto split: option.splits if_splits)

lemma fire_inv:
  assumes "inv w"
  shows "inv (after (fire w))"
proof (cases "earliest (timers w)")
  case None
  then show ?thesis using assms by (simp add: fire_def)
next
  case (Some x)
  obtain h t where x: "x = (h, t)" by (cases x)
  have mem: "(h, t) \<in> set (timers w)" using earliest_mem[OF Some] x by simp
  define now where "now = max (clock w) (due t)"
  define ts where "ts = (case period t of
       None \<Rightarrow> filter (\<lambda>e. fst e \<noteq> h) (timers w)
     | Some p \<Rightarrow> map (\<lambda>e. if fst e = h then (h, Timer (now + p) (Some p) (cb t)) else e) (timers w))"
  define w1 where "w1 = w\<lparr>clock := now, timers := ts\<rparr>"
  have fire: "fire w = run_cb h (cb t) w1"
    unfolding w1_def ts_def now_def using Some x by (simp add: fire_def Let_def)
  have ok: "\<forall>e\<in>set (timers w). expiry_ok w e" using assms by (simp add: inv_def)
  have ts_ok: "\<forall>e\<in>set ts. expiry_ok w e"
  proof (cases "period t")
    case None
    then show ?thesis using ok by (simp add: ts_def)
  next
    case (Some p)
    have "expiry_ok w (h, t)" using ok mem by blast
    then have "expiry_ok w (h, Timer (now + p) (Some p) (cb t))"
      using Some by (auto simp: expiry_ok_def)
    then show ?thesis using ok Some by (auto simp: ts_def)
  qed
  have f1: "seq w1 = seq w" "idx w1 = idx w" "letterT w1 = letterT w" "timers w1 = ts"
    by (simp_all add: w1_def)
  have inv1: "inv w1" using assms ts_ok by (simp add: inv_def w1_def expiry_ok_def)
  show ?thesis
  proof (cases "cb t")
    case (WarnCb el)
    show ?thesis using inv1 unfolding fire WarnCb
      by (auto simp: inv_def expiry_ok_def setInterval_def Let_def)
  next
    case (FlickerCb el)
    show ?thesis using inv1 unfolding fire FlickerCb
      by (auto simp: inv_def expiry_ok_def split: option.splits)
  next
    case (ExpiryCb wh el)
    have eok: "expiry_ok w (h, t)" using ok mem by blast
    then have p: "period t = None" and lt: "letterT w = Some h" and ix: "idx w < length (seq w)"
      using ExpiryCb by (simp_all add: expiry_ok_def)
    have ts: "ts = filter (\<lambda>e. fst e \<noteq> h) (timers w)" using p by (simp add: ts_def)
    have ne1: "no_expiry w1"
      unfolding no_expiry_def f1 ts using ok lt by (auto simp: expiry_ok_def)
    define w2 where "w2 = (if wh \<in> set (flickered w1) then clearTimer (flicker w1) w1 else w1)"
    have ne2: "no_expiry w2" using ne1 by (simp add: w2_def no_expiry_clear)
    have f2: "seq w2 = seq w" "idx w2 = idx w"
      by (simp_all add: w2_def clearTimer_upd f1)
    show ?thesis
    proof (cases el)
      case None
      have "inv w2" by (rule no_expiry_inv[OF ne2]) (use assms f2 in \<open>simp_all add: inv_def\<close>)
      then show ?thesis unfolding fire ExpiryCb None by (simp add: w2_def Let_def)
    next
      case (Some e)
      let ?w3 = "w2\<lparr>trace := trace w2 @ [Fall e]\<rparr>"
      have "no_expiry ?w3" using ne2 by (simp add: no_expiry_def)
      then have "inv (after (nextLetter ?w3))"
        by (rule nextLetter_inv) (use assms f2 ix in \<open>simp_all add: inv_def\<close>)
      then show ?thesis unfolding fire ExpiryCb Some by (simp add: w2_def Let_def)
    qed
  qed
qed

lemma inv_new: "inv (UyghurTypingGame c m ls)"
  by (simp add: UyghurTypingGame_def inv_def resetState_def clearTimer_def expiry_ok_def)

lemma step_inv: "inv w \<Longrightarrow> inv (step a w)"
proof (cases a)
  case (Elapse d)
  assume "inv w" then show ?thesis using Elapse by (simp add: inv_def expiry_ok_def)
next
  case Fire
  assume "inv w" then show ?thesis using Fire by (simp add: inv_settle fire_inv)
next
  case (KeyDown k)
  assume "inv w" then show ?thesis using KeyDown by (simp add: inv_settle keyHandler_inv)
next
  case (Start rnd)
  assume "inv w" then show ?thesis using Start by (simp add: start_inv)
next
  case ResetState
  assume "inv w" then show ?thesis using ResetState by (simp add: resetState_inv)
next
  case ClearRender
  assume "inv w" then show ?thesis using ClearRender by (simp add: clearRender_inv)
next
  case RemoveListener
  assume "inv w" then show ?thesis using RemoveListener by (simp add: inv_def expiry_ok_def)
next
  case ScoreReset
  assume "inv w" then show ?thesis using ScoreReset by (simp add: inv_def expiry_ok_def)
next
  case ScoreSave
  assume "inv w" then show ?thesis using ScoreSave by (simp add: inv_def expiry_ok_def split: option.splits)
qed

lemma run_inv: "inv w \<Longrightarrow> inv (run acts w)"
  unfolding run_def by (induction acts arbitrary: w) (simp_all add: step_inv)

section \<open>The books of a session\<close>

lemma gameovers_append [simp]: "gameovers (xs @ ys) = gameovers xs @ gameovers ys"
  by (induction xs rule: gameovers.induct) simp_all

lemma bursts_append [simp]: "bursts (xs @ ys) = bursts xs + bursts ys"
  by (induction xs rule: bursts.induct) simp_all

lemma falls_append [simp]: "falls (xs @ ys) = falls xs + falls ys"
  by (induction xs rule: falls.induct) simp_all

lemma score_updateDisplay [simp]: "score (updateDisplay b m) = score m"
  by (simp add: updateDisplay_def split: option.splits)

lemma total_updateDisplay [simp]: "totalScore (updateDisplay b m) = totalScore m"
  by (simp add: updateDisplay_def split: option.splits)

lemma clearTimer_fields [simp]:
  "seq (clearTimer ho w) = seq w" "idx (clearTimer ho w) = idx w"
  "letters (clearTimer ho w) = letters w" "letterT (clearTimer ho w) = letterT w"
  "flicker (clearTimer ho w) = flicker w" "onGameOver (clearTimer ho w) = onGameOver w"
  "scoreManager (clearTimer ho w) = scoreManager w" "localStorage (clearTimer ho w) = localStorage w"
  "listening (clearTimer ho w) = listening w" "clock (clearTimer ho w) = clock w"
  "nextHandle (clearTimer ho w) = nextHandle w" "flickered (clearTimer ho w) = flickered w"
  "nextEl (clearTimer ho w) = nextEl w" "trace (clearTimer ho w) = trace w"
  by (simp_all add: clearTimer_upd)

lemma acc_irrelevant:
  "acc k t (w\<lparr>clock := c\<rparr>) = acc k t w"
  "acc k t (w\<lparr>timers := ts\<rparr>) = acc k t w"
  "acc k t (w\<lparr>clock := c, timers := ts\<rparr>) = acc k t w"
  "acc k t (clearTimer ho w) = acc k t w"
  by (simp_all add: acc_def clearTimer_upd)

lemma nextLetter_acc:
  assumes "onGameOver w" "k \<le> length (trace w)" "scoreManager w = Some m" "idx w < MAX_ADVANCE"
    and "idx w + 1 = bursts (drop k (trace w)) + falls (drop k (trace w))"
    and "score m = Num (10 * int (bursts (drop k (trace w))))"
    and "totalScore m = matched_total (bursts (drop k (trace w))) t"
    and "gameovers (drop k (trace w)) = []"
  shows "acc k t (settle (nextLetter w))"
  using assms
  by (simp add: acc_def nextLetter_def endGame_def shiftLetters_def getScore_def Let_def)

lemma handleCorrectKey_acc:
  assumes "acc k t w" "idx w < length (seq w)" "length (seq w) \<le> MAX_ADVANCE"
  shows "acc k t (settle (handleCorrectKey w))"
proof -
  obtain m where m: "scoreManager w = Some m" "score m = Num (10 * int (bursts (drop k (trace w))))"
      "totalScore m = matched_total (bursts (drop k (trace w))) t" "gameovers (drop k (trace w)) = []"
    using assms by (auto simp: acc_def)
  have b: "onGameOver w" "k \<le> length (trace w)"
     "idx w = bursts (drop k (trace w)) + falls (drop k (trace w))"
    using assms by (auto simp: acc_def)
  let ?w2 = "clearTimer (flicker (clearTimer (letterT w) w)) (clearTimer (letterT w) w)"
  have a2: "acc k t ?w2" using assms(1) by (simp add: acc_irrelevant)
  show ?thesis
  proof (cases "idx w < length (letters w)")
    case False
    then have "settle (handleCorrectKey w) = ?w2\<lparr>trace := trace ?w2 @ [Uncaught TypeError]\<rparr>"
      by (simp add: handleCorrectKey_def Let_def)
    moreover have "acc k t (?w2\<lparr>trace := trace ?w2 @ [Uncaught TypeError]\<rparr>)"
      using a2 by (auto simp: acc_def)
    ultimately show ?thesis by simp
  next
    case True
    let ?e = "letters w ! idx w"
    let ?w3 = "awardPoints (?w2\<lparr>trace := trace ?w2 @ [Burst ?e]\<rparr>)"
    let ?m' = "updateDisplay False (m\<lparr>score := js_add (score m) (Num 10),
                  totalScore := js_add (totalScore m) (Num 10)\<rparr>)"
    have bb: "bursts (drop k (trace w)) < 7"
      using b(3) assms(2,3) by (simp add: MAX_ADVANCE_def)
    then have ten: "js_add (Num (10 * int (bursts (drop k (trace w))))) (Num 10) =
                    Num (10 * int (Suc (bursts (drop k (trace w)))))"
      by (simp add: number_safe)
    have hk: "settle (handleCorrectKey w) = settle (nextLetter ?w3)"
      using True by (simp add: handleCorrectKey_def Let_def)
    have sm: "scoreManager ?w3 = Some ?m'"
      using m(1) by (simp add: awardPoints_def increment_def clearTimer_upd Let_def)
    have tr: "trace ?w3 = trace w @ [Burst ?e]" "idx ?w3 = idx w" "onGameOver ?w3"
      using b by (simp_all add: clearTimer_upd)
    have "acc k t (settle (nextLetter ?w3))"
    proof (rule nextLetter_acc[where m = ?m'])
      show "onGameOver ?w3" by (rule tr)
      show "k \<le> length (trace ?w3)" using b by (simp add: tr)
      show "scoreManager ?w3 = Some ?m'" by (rule sm)
      show "idx ?w3 < MAX_ADVANCE" using assms by (simp add: tr)
      show "idx ?w3 + 1 = bursts (drop k (trace ?w3)) + falls (drop k (trace ?w3))"
        using b by (simp add: tr)
      show "score ?m' = Num (10 * int (bursts (drop k (trace ?w3))))"
        using b m ten by (simp add: tr)
      show "totalScore ?m' = matched_total (bursts (drop k (trace ?w3))) t"
        using b m by (simp add: tr)
      show "gameovers (drop k (trace ?w3)) = []" using b m by (simp add: tr)
    qed
    then show ?thesis by (simp add: hk)
  qed
qed

lemma keyHandler_acc:
  assumes "acc k t w" "inv w"
  shows "acc k t (settle (keyHandler key w))"
  using assms by (simp add: keyHandler_def handleCorrectKey_acc inv_def)

lemma fire_acc:
  assumes "acc k t w" "inv w"
  shows "acc k t (settle (fire w))"
proof (cases "earliest (timers w)")
  case None
  then show ?thesis using assms by (simp add: fire_def)
next
  case (Some x)
  obtain h tm where x: "x = (h, tm)" by (cases x)
  have mem: "(h, tm) \<in> set (timers w)" using earliest_mem[OF Some] x by simp
  define now where "now = max (clock w) (due tm)"
  define ts where "ts = (case period tm of
       None \<Rightarrow> filter (\<lambda>e. fst e \<noteq> h) (timers w)
     | Some p \<Rightarrow> map (\<lambda>e. if fst e = h then (h, Timer (now + p) (Some p) (cb tm)) else e) (timers w))"
  define w1 where "w1 = w\<lparr>clock := now, timers := ts\<rparr>"
  have fire: "fire w = run_cb h (cb tm) w1"
    unfolding w1_def ts_def now_def using Some x by (simp add: fire_def Let_def)
  have a1: "acc k t w1" using assms(1) by (simp add: w1_def acc_irrelevant)
  show ?thesis
  proof (cases "cb tm")
    case (WarnCb el)
    have "acc k t (after (run_cb h (WarnCb el) w1))"
      using a1 by (simp add: acc_def setInterval_def Let_def)
    then show ?thesis unfolding fire WarnCb by (simp add: Let_def)
  next
    case (FlickerCb el)
    show ?thesis unfolding fire FlickerCb using a1
      by (cases el) (auto simp: acc_def)
  next
    case (ExpiryCb wh el)
    have "expiry_ok w (h, tm)" using assms(2) mem by (auto simp: inv_def)
    then have ix: "idx w < length (seq w)" using ExpiryCb by (simp add: expiry_ok_def)
    then have lim: "idx w < MAX_ADVANCE" using assms(2) by (simp add: inv_def)
    define w2 where "w2 = (if wh \<in> set (flickered w1) then clearTimer (flicker w1) w1 else w1)"
    have a2: "acc k t w2" using a1 by (simp add: w2_def acc_irrelevant)
    have i2: "idx w2 = idx w" by (simp add: w2_def w1_def clearTimer_upd)
    show ?thesis
    proof (cases el)
      case None
      have "acc k t (w2\<lparr>trace := trace w2 @ [Uncaught TypeError]\<rparr>)"
        using a2 by (auto simp: acc_def)
      then show ?thesis unfolding fire ExpiryCb None by (simp add: w2_def Let_def)
    next
      case (Some e)
      obtain m where m: "scoreManager w2 = Some m" "score m = Num (10 * int (bursts (drop k (trace w2))))"
          "totalScore m = matched_total (bursts (drop k (trace w2))) t" "gameovers (drop k (trace w2)) = []"
        using a2 lim i2 by (auto simp: acc_def)
      have b: "onGameOver w2" "k \<le> length (trace w2)"
         "idx w2 = bursts (drop k (trace w2)) + falls (drop k (trace w2))"
        using a2 by (auto simp: acc_def)
      let ?w3 = "w2\<lparr>trace := trace w2 @ [Fall e]\<rparr>"
      have "acc k t (settle (nextLetter ?w3))"
        by (rule nextLetter_acc[where m = m]) (use m b lim i2 in simp_all)
      then show ?thesis unfolding fire ExpiryCb Some by (simp add: w2_def Let_def)
    qed
  qed
qed

lemma step_acc:
  assumes "acc k t w" "inv w" "is_play a"
  shows "acc k t (step a w)"
proof (cases a)
  case (Elapse d)
  then show ?thesis using assms by (simp add: acc_irrelevant)
next
  case Fire
  then show ?thesis using assms by (simp add: fire_acc)
next
  case (KeyDown key)
  then show ?thesis using assms by (simp add: keyHandler_acc)
next
  case ClearRender
  have "acc k t (clearRender w) = acc k t w" by (simp add: acc_def)
  then show ?thesis using assms ClearRender by simp
next
  case RemoveListener
  then show ?thesis using assms by (simp add: acc_def)
next
  case ScoreSave
  then show ?thesis using assms by (auto simp: acc_def)
qed (use assms in simp_all)

lemma run_acc:
  assumes "acc k t w" "inv w" "\<forall>a\<in>set acts. is_play a"
  shows "acc k t (run acts w)"
  using assms unfolding run_def
  by (induction acts arbitrary: w) (simp_all add: step_acc step_inv)


lemma attached_settle: "attached (settle out) = attached (after out)"
  by (cases out) (auto simp: attached_def)

lemma nextLetter_attached: "attached w \<Longrightarrow> attached (after (nextLetter w))"
  by (auto simp: attached_def nextLetter_def endGame_def shiftLetters_def Let_def)

lemma awardPoints_attached: "attached w \<Longrightarrow> attached (awardPoints w)"
  by (auto simp: attached_def awardPoints_def Let_def)

lemma keyHandler_attached: "attached w \<Longrightarrow> attached (after (keyHandler key w))"
proof -
  assume a: "attached w"
  let ?w2 = "clearTimer (flicker (clearTimer (letterT w) w)) (clearTimer (letterT w) w)"
  have a2: "attached ?w2" using a by (simp add: attached_def)
  have "attached (after (nextLetter (awardPoints (?w2\<lparr>trace := trace ?w2 @ [Burst e]\<rparr>))))" for e
    by (intro nextLetter_attached awardPoints_attached) (use a2 in \<open>simp add: attached_def\<close>)
  then show ?thesis using a a2
    by (simp add: keyHandler_def handleCorrectKey_def Let_def)
qed

lemma run_cb_attached: "attached w \<Longrightarrow> attached (after (run_cb h f w))"
proof (cases f)
  case (WarnCb el)
  assume "attached w" then show ?thesis using WarnCb
    by (simp add: attached_def setInterval_def Let_def)
next
  case (FlickerCb el)
  assume "attached w" then show ?thesis using FlickerCb
    by (cases el) (simp_all add: attached_def)
next
  case (ExpiryCb wh el)
  assume a: "attached w"
  define w1 where "w1 = (if wh \<in> set (flickered w) then clearTimer (flicker w) w else w)"
  have a1: "attached w1" using a by (simp add: w1_def attached_def)
  have "attached (after (nextLetter (w1\<lparr>trace := trace w1 @ [Fall e]\<rparr>)))" for e
    by (rule nextLetter_attached) (use a1 in \<open>simp add: attached_def\<close>)
  then show ?thesis using a1 unfolding ExpiryCb
    by (cases el) (simp_all add: w1_def Let_def)
qed

lemma fire_attached: "attached w \<Longrightarrow> attached (after (fire w))"
proof (cases "earliest (timers w)")
  case None
  assume "attached w" then show ?thesis using None by (simp add: fire_def)
next
  case (Some x)
  assume a: "attached w"
  obtain h tm where x: "x = (h, tm)" by (cases x)
  have "attached (after (run_cb h (cb tm) (w\<lparr>clock := c, timers := ts\<rparr>)))" for c ts
    by (rule run_cb_attached) (use a in \<open>simp add: attached_def\<close>)
  then show ?thesis using Some x by (simp add: fire_def Let_def)
qed

lemma step_attached: "attached w \<Longrightarrow> attached (step a w)"
proof (cases a)
  case Fire
  assume "attached w" then show ?thesis using Fire by (simp add: attached_settle fire_attached)
next
  case (KeyDown k)
  assume "attached w" then show ?thesis using KeyDown by (simp add: attached_settle keyHandler_attached)
next
  case (Start rnd)
  assume "attached w" then show ?thesis using Start
    by (simp add: attached_def start_def render_def newSequence_def Let_def)
next
  case ScoreSave
  assume "attached w" then show ?thesis using ScoreSave by (auto simp: attached_def)
qed (auto simp: attached_def)

lemma run_attached: "attached w \<Longrightarrow> attached (run acts w)"
  unfolding run_def by (induction acts arbitrary: w) (simp_all add: step_attached)

lemma start_acc:
  assumes "onGameOver w" "scoreManager w = Some m" "score m = Num 0"
  shows "acc (length (trace w)) (totalScore m) (start rnd w)"
  using assms
  by (simp add: acc_def start_def render_def newSequence_def Let_def MAX_ADVANCE_def)

lemma session_acc:
  assumes "scoreManager (run pre (UyghurTypingGame True (Some m0) ls)) = Some m"
    and "\<forall>a\<in>set acts. is_play a"
  shows "acc (length (trace (run pre (UyghurTypingGame True (Some m0) ls)))) (totalScore m)
           (run acts (start rnd (step ScoreReset (run pre (UyghurTypingGame True (Some m0) ls)))))"
    and "inv (run acts (start rnd (step ScoreReset (run pre (UyghurTypingGame True (Some m0) ls)))))"
proof -
  let ?w0 = "run pre (UyghurTypingGame True (Some m0) ls)"
  let ?ws = "step ScoreReset ?w0"
  have "attached (UyghurTypingGame True (Some m0) ls)"
    by (simp add: attached_def UyghurTypingGame_def)
  then have "attached ?w0" by (rule run_attached)
  then have og: "onGameOver ?ws" by (simp add: attached_def)
  have sm: "scoreManager ?ws = Some (reset m)" using assms(1) by simp
  have "acc (length (trace ?ws)) (totalScore (reset m)) (start rnd ?ws)"
    by (rule start_acc[OF og sm]) (simp add: reset_def)
  then have a1: "acc (length (trace ?w0)) (totalScore m) (start rnd ?ws)"
    by (simp add: reset_def)
  have i1: "inv (start rnd ?ws)"
    by (intro start_inv step_inv run_inv inv_new)
  show "acc (length (trace ?w0)) (totalScore m) (run acts (start rnd ?ws))"
    by (rule run_acc[OF a1 i1 assms(2)])
  show "inv (run acts (start rnd ?ws))" by (rule run_inv[OF i1])
qed

section \<open>The discipline of the timers is an invariant\<close>

lemma earliest_None: "earliest ts = None \<longleftrightarrow> ts = []"
  by (induction ts) (auto split: option.splits)

lemma earliest_least:
  assumes "sorted_wrt (<) (map fst ts)" "earliest ts = Some x"
  shows "\<forall>y\<in>set ts. due (snd x) \<le> due (snd y) \<and> (due (snd y) = due (snd x) \<longrightarrow> fst x \<le> fst y)"
  using assms
proof (induction ts arbitrary: x)
  case Nil
  then show ?case by simp
next
  case (Cons a ts)
  show ?case
  proof (cases "earliest ts")
    case None
    then have "ts = []" by (simp add: earliest_None)
    with Cons.prems show ?thesis by simp
  next
    case (Some z)
    have s: "sorted_wrt (<) (map fst ts)" and lt: "\<forall>u\<in>set ts. fst a < fst u"
      using Cons.prems(1) by auto
    have ih: "\<forall>u\<in>set ts. due (snd z) \<le> due (snd u) \<and> (due (snd u) = due (snd z) \<longrightarrow> fst z \<le> fst u)"
      by (rule Cons.IH[OF s Some])
    show ?thesis
    proof (cases "due (snd a) \<le> due (snd z)")
      case True
      then have x: "x = a" using Cons.prems(2) Some by simp
      have "\<forall>u\<in>set ts. due (snd a) \<le> due (snd u) \<and> fst a \<le> fst u"
        using ih lt True by fastforce
      then show ?thesis unfolding x by simp
    next
      case False
      then have x: "x = z" using Cons.prems(2) Some by simp
      show ?thesis unfolding x using ih False by simp
    qed
  qed
qed

lemma startTimer_idle: "length (seq w) \<le> idx w \<Longrightarrow> startTimer w = w"
  by (simp add: startTimer_def)

lemma startTimer_armed:
  assumes "idx w < length (seq w)" "idx w < length (letters w)"
  shows "startTimer w =
     w\<lparr>timers := timers w @ armed w, nextHandle := Suc (Suc (nextHandle w)),
       letterT := Some (Suc (nextHandle w))\<rparr>"
  using assms by (simp add: startTimer_def setTimeout_def Let_def armed_def)

lemma nth_not_in_drop:
  assumes "distinct xs" "i < length xs"
  shows "xs ! i \<notin> set (drop (Suc i) xs)"
proof -
  have "xs = take i xs @ xs ! i # drop (Suc i) xs" using assms(2) by (rule id_take_nth_drop)
  then have "distinct (take i xs @ xs ! i # drop (Suc i) xs)" using assms(1) by simp
  then show ?thesis by simp
qed

lemma startTimer_base:
  assumes "base w" "length (letters w) = length (seq w)"
  shows "base (startTimer w)"
proof (cases "idx w < length (seq w)")
  case False
  then show ?thesis using assms by (simp add: startTimer_idle)
next
  case True
  then have il: "idx w < length (letters w)" using assms(2) by simp
  have b: "sorted_wrt (<) (map fst (timers w))" "\<forall>e\<in>set (timers w). fst e < nextHandle w"
    "\<forall>h\<in>set (flickered w). h < nextHandle w \<and> h \<notin> fst ` set (timers w)"
    "\<forall>e\<in>set (timers w). is_warn (cb (snd e)) \<longrightarrow> due (snd e) \<le> clock w + FLICKER_DELAY"
    "\<forall>e\<in>set (timers w). period (snd e) \<noteq> None \<longrightarrow> is_flicker (cb (snd e))"
    "\<forall>x\<in>set (letters w). x < nextEl w" "distinct (letters w)"
    using assms(1) by (simp_all add: base_def)
  have 1: "sorted_wrt (<) (map fst (timers w @ armed w))"
    using b(1,2) by (auto simp: sorted_wrt_append armed_def)
  have 2: "\<forall>e\<in>set (timers w @ armed w). fst e < Suc (Suc (nextHandle w))"
    using b(2) by (auto simp: armed_def)
  have 3: "\<forall>h\<in>set (flickered w). h < Suc (Suc (nextHandle w)) \<and> h \<notin> fst ` set (timers w @ armed w)"
    using b(3) by (auto simp: armed_def)
  have 4: "\<forall>e\<in>set (timers w @ armed w). is_warn (cb (snd e)) \<longrightarrow> due (snd e) \<le> clock w + FLICKER_DELAY"
    using b(4) by (auto simp: armed_def)
  have 5: "\<forall>e\<in>set (timers w @ armed w). period (snd e) \<noteq> None \<longrightarrow> is_flicker (cb (snd e))"
    using b(5) by (auto simp: armed_def)
  show ?thesis
    unfolding startTimer_armed[OF True il] base_def
    using 1 2 3 4 5 b(6,7) assms(2) by simp
qed

lemma startTimer_els:
  assumes "base w" "els_ok (idx w) w" "length (letters w) = length (seq w)"
  shows "els_ok (Suc (idx w)) (startTimer w)"
proof -
  have sub: "set (drop (Suc (idx w)) (letters w)) \<subseteq> set (drop (idx w) (letters w))"
    by (rule set_drop_subset_set_drop) simp
  have old: "\<forall>e\<in>set (timers w). \<forall>x. cb_el (cb (snd e)) = Some x \<longrightarrow>
        x < nextEl w \<and> x \<notin> set (drop (Suc (idx w)) (letters w))"
    using assms(2) sub unfolding els_ok_def by blast
  show ?thesis
  proof (cases "idx w < length (seq w)")
    case False
    then show ?thesis using old by (simp add: startTimer_idle els_ok_def)
  next
    case True
    then have il: "idx w < length (letters w)" using assms(3) by simp
    have d: "letters w ! idx w \<notin> set (drop (Suc (idx w)) (letters w))"
      using assms(1) il by (simp add: base_def nth_not_in_drop)
    have l: "letters w ! idx w < nextEl w" using assms(1) il by (simp add: base_def)
    have "\<forall>e\<in>set (timers w @ armed w). \<forall>x. cb_el (cb (snd e)) = Some x \<longrightarrow>
        x < nextEl w \<and> x \<notin> set (drop (Suc (idx w)) (letters w))"
      using old d l by (auto simp: armed_def)
    then show ?thesis unfolding startTimer_armed[OF True il] els_ok_def by simp
  qed
qed

lemma no_expiry_frame: "no_expiry w \<Longrightarrow> frame_ok w"
  by (auto simp: no_expiry_def frame_ok_def)

lemma startTimer_frame:
  assumes "base w" "no_expiry w" "els_ok (idx w) w" "length (letters w) = length (seq w)"
  shows "frame_ok (startTimer w)"
proof (cases "idx w < length (seq w)")
  case False
  then show ?thesis using assms(2) by (simp add: startTimer_idle no_expiry_frame)
next
  case True
  then have il: "idx w < length (letters w)" using assms(4) by simp
  let ?el = "Some (letters w ! idx w)"
  let ?E = "(Suc (nextHandle w), Timer (clock w + FALL_DELAY) None (ExpiryCb (nextHandle w) ?el))"
  have in_drop: "letters w ! idx w \<in> set (drop (idx w) (letters w))"
    using il by (metis Cons_nth_drop_Suc list.set_intros(1))
  have old_el: "\<forall>e\<in>set (timers w). cb_el (cb (snd e)) \<noteq> ?el"
    using assms(3) in_drop unfolding els_ok_def by blast
  have old_h: "\<forall>e\<in>set (timers w). fst e < nextHandle w"
    and old_due: "\<forall>e\<in>set (timers w). is_warn (cb (snd e)) \<longrightarrow> due (snd e) \<le> clock w + FLICKER_DELAY"
    and fl: "nextHandle w \<notin> set (flickered w)"
    using assms(1) by (auto simp: base_def)
  have exp: "\<forall>e\<in>set (timers w @ armed w). \<forall>wh el. cb (snd e) = ExpiryCb wh el \<longrightarrow> e = ?E"
    using assms(2) by (auto simp: no_expiry_def armed_def)
  have w1: "\<forall>e'\<in>set (timers w @ armed w). is_warn (cb (snd e')) \<longrightarrow>
           fst e' \<le> nextHandle w \<and> due (snd e') + (FALL_DELAY - FLICKER_DELAY) \<le> clock w + FALL_DELAY \<and>
           (fst e' = nextHandle w \<longrightarrow> due (snd e') + (FALL_DELAY - FLICKER_DELAY) = clock w + FALL_DELAY)"
  proof
    fix e' assume "e' \<in> set (timers w @ armed w)"
    then consider "e' \<in> set (timers w)" | "e' \<in> set (armed w)" by auto
    then show "is_warn (cb (snd e')) \<longrightarrow>
           fst e' \<le> nextHandle w \<and> due (snd e') + (FALL_DELAY - FLICKER_DELAY) \<le> clock w + FALL_DELAY \<and>
           (fst e' = nextHandle w \<longrightarrow> due (snd e') + (FALL_DELAY - FLICKER_DELAY) = clock w + FALL_DELAY)"
    proof cases
      case 1
      then show ?thesis using old_h old_due
        by (fastforce simp: FALL_DELAY_def FLICKER_DELAY_def)
    next
      case 2
      then show ?thesis by (auto simp: armed_def FALL_DELAY_def FLICKER_DELAY_def)
    qed
  qed
  have w2: "\<forall>e'\<in>set (timers w @ armed w). cb (snd e') = WarnCb ?el \<longrightarrow> fst e' = nextHandle w"
  proof
    fix e' assume "e' \<in> set (timers w @ armed w)"
    then consider "e' \<in> set (timers w)" | "e' \<in> set (armed w)" by auto
    then show "cb (snd e') = WarnCb ?el \<longrightarrow> fst e' = nextHandle w"
    proof cases
      case 1
      then have "cb_el (cb (snd e')) \<noteq> ?el" using old_el by blast
      then show ?thesis by auto
    next
      case 2
      then show ?thesis by (auto simp: armed_def)
    qed
  qed
  have w3: "\<forall>e'\<in>set (timers w @ armed w). cb (snd e') \<noteq> FlickerCb ?el"
  proof
    fix e' assume "e' \<in> set (timers w @ armed w)"
    then consider "e' \<in> set (timers w)" | "e' \<in> set (armed w)" by auto
    then show "cb (snd e') \<noteq> FlickerCb ?el"
    proof cases
      case 1
      then have "cb_el (cb (snd e')) \<noteq> ?el" using old_el by blast
      then show ?thesis by auto
    next
      case 2
      then show ?thesis by (auto simp: armed_def)
    qed
  qed
  show ?thesis
    unfolding startTimer_armed[OF True il] frame_ok_def
  proof (intro ballI allI impI)
    fix e wh el
    assume e: "e \<in> set (timers (w\<lparr>timers := timers w @ armed w, nextHandle := Suc (Suc (nextHandle w)),
       letterT := Some (Suc (nextHandle w))\<rparr>))"
      and c: "cb (snd e) = ExpiryCb wh el"
    have "e = ?E" using exp e c by simp
    then have wh: "wh = nextHandle w" and el: "el = ?el" and d: "due (snd e) = clock w + FALL_DELAY"
      using c by simp_all
    show "frame_at (w\<lparr>timers := timers w @ armed w, nextHandle := Suc (Suc (nextHandle w)),
       letterT := Some (Suc (nextHandle w))\<rparr>) e wh el"
      unfolding frame_at_def wh el d using il w1 w2 w3 fl by simp
  qed
qed

subsection \<open>Fields that do not matter, and cancelled timers\<close>

lemma tidy_trace [simp]: "tidy (w\<lparr>trace := x\<rparr>) = tidy w"
  by (simp add: tidy_def base_def els_ok_def frame_ok_def frame_at_def)

lemma tidy_listening [simp]: "tidy (w\<lparr>listening := x\<rparr>) = tidy w"
  by (simp add: tidy_def base_def els_ok_def frame_ok_def frame_at_def)

lemma tidy_scoreManager [simp]: "tidy (w\<lparr>scoreManager := x\<rparr>) = tidy w"
  by (simp add: tidy_def base_def els_ok_def frame_ok_def frame_at_def)

lemma tidy_localStorage [simp]: "tidy (w\<lparr>localStorage := x\<rparr>) = tidy w"
  by (simp add: tidy_def base_def els_ok_def frame_ok_def frame_at_def)

lemma tidy_settle: "tidy (settle out) = tidy (after out)"
  by (cases out) auto

lemma base_trace [simp]: "base (w\<lparr>trace := x\<rparr>) = base w"
  by (simp add: base_def)

lemma els_ok_trace [simp]: "els_ok n (w\<lparr>trace := x\<rparr>) = els_ok n w"
  by (simp add: els_ok_def)

lemma no_expiry_trace [simp]: "no_expiry (w\<lparr>trace := x\<rparr>) = no_expiry w"
  by (simp add: no_expiry_def)

lemma clearTimer_filter:
  "clearTimer ho w = w\<lparr>timers := filter (\<lambda>e. Some (fst e) \<noteq> ho) (timers w)\<rparr>"
  by (cases ho) (simp_all add: clearTimer_def)

lemma base_filter:
  assumes "base w"
  shows "base (w\<lparr>timers := filter P (timers w)\<rparr>)"
proof -
  have "sorted_wrt (<) (map fst (filter P (timers w)))"
    using assms by (simp add: base_def sorted_wrt_map sorted_wrt_filter)
  moreover have "\<forall>e\<in>set (filter P (timers w)). fst e < nextHandle w"
    using assms by (simp add: base_def)
  moreover have "\<forall>h\<in>set (flickered w). h < nextHandle w \<and> h \<notin> fst ` set (filter P (timers w))"
    using assms unfolding base_def by auto
  moreover have "\<forall>e\<in>set (filter P (timers w)). is_warn (cb (snd e)) \<longrightarrow> due (snd e) \<le> clock w + FLICKER_DELAY"
    using assms by (simp add: base_def)
  moreover have "\<forall>e\<in>set (filter P (timers w)). period (snd e) \<noteq> None \<longrightarrow> is_flicker (cb (snd e))"
    using assms by (simp add: base_def)
  ultimately show ?thesis using assms by (simp add: base_def)
qed

lemma els_ok_filter: "els_ok n w \<Longrightarrow> els_ok n (w\<lparr>timers := filter P (timers w)\<rparr>)"
  unfolding els_ok_def by auto

lemma no_expiry_filter: "no_expiry w \<Longrightarrow> no_expiry (w\<lparr>timers := filter P (timers w)\<rparr>)"
  by (simp add: no_expiry_def)

lemma base_clear: "base w \<Longrightarrow> base (clearTimer ho w)"
  unfolding clearTimer_filter by (rule base_filter)

lemma els_ok_clear: "els_ok n w \<Longrightarrow> els_ok n (clearTimer ho w)"
  unfolding clearTimer_filter by (rule els_ok_filter)

lemma els_ok_mono: "els_ok n w \<Longrightarrow> n \<le> m \<Longrightarrow> els_ok m w"
proof -
  assume a: "els_ok n w" "n \<le> m"
  have "set (drop m (letters w)) \<subseteq> set (drop n (letters w))"
    using a(2) by (rule set_drop_subset_set_drop)
  then show ?thesis using a(1) unfolding els_ok_def by blast
qed

lemma frame_at_filter:
  assumes "frame_at w e wh el"
  shows "frame_at (w\<lparr>timers := filter P (timers w)\<rparr>) e wh el"
  using assms unfolding frame_at_def by auto

lemma frame_ok_filter: "frame_ok w \<Longrightarrow> frame_ok (w\<lparr>timers := filter P (timers w)\<rparr>)"
  unfolding frame_ok_def using frame_at_filter by auto

lemma tidy_filter: "tidy w \<Longrightarrow> tidy (w\<lparr>timers := filter P (timers w)\<rparr>)"
  unfolding tidy_def using base_filter els_ok_filter frame_ok_filter by auto

lemma tidy_clear: "tidy w \<Longrightarrow> tidy (clearTimer ho w)"
  unfolding clearTimer_filter by (rule tidy_filter)

lemma tidy_between:
  assumes "base w" "no_expiry w" "els_ok (Suc (idx w)) w"
  shows "tidy w"
  using assms by (simp add: tidy_def no_expiry_frame)

lemma startTimer_tidy:
  assumes "base w" "no_expiry w" "els_ok (idx w) w" "length (letters w) = length (seq w)"
  shows "tidy (startTimer w)"
  unfolding tidy_def
  using startTimer_base[OF assms(1,4)] startTimer_els[OF assms(1,3,4)]
    startTimer_frame[OF assms] by simp

lemma base_idx [simp]: "base (w\<lparr>idx := i\<rparr>) = base w"
  by (simp add: base_def)

lemma no_expiry_idx [simp]: "no_expiry (w\<lparr>idx := i\<rparr>) = no_expiry w"
  by (simp add: no_expiry_def)

lemma els_ok_idx [simp]: "els_ok n (w\<lparr>idx := i\<rparr>) = els_ok n w"
  by (simp add: els_ok_def)

lemma nextLetter_tidy:
  assumes "base w" "no_expiry w" "els_ok (Suc (idx w)) w" "length (letters w) = length (seq w)"
  shows "tidy (after (nextLetter w))"
proof (cases "MAX_ADVANCE \<le> idx w + 1")
  case True
  let ?w1 = "w\<lparr>idx := idx w + 1\<rparr>"
  have "els_ok (Suc (idx ?w1)) ?w1"
    using els_ok_mono[OF assms(3), of "Suc (Suc (idx w))"] by simp
  then have "tidy ?w1"
    by (intro tidy_between) (use assms in simp_all)
  then have "tidy (after (endGame ?w1))"
    by (simp add: endGame_def Let_def split: option.splits)
  with True show ?thesis by (simp add: nextLetter_def Let_def)
next
  case False
  let ?w1 = "shiftLetters (w\<lparr>idx := idx w + 1\<rparr>)"
  have "tidy (startTimer ?w1)"
    by (rule startTimer_tidy) (use assms in \<open>simp_all add: shiftLetters_def\<close>)
  with False show ?thesis by (simp add: nextLetter_def Let_def)
qed

lemma base_awardPoints [simp]: "base (awardPoints w) = base w"
  by (simp add: awardPoints_def base_def Let_def split: option.splits)

lemma els_ok_awardPoints [simp]: "els_ok n (awardPoints w) = els_ok n w"
  by (simp add: awardPoints_def els_ok_def Let_def split: option.splits)

lemma no_expiry_awardPoints [simp]: "no_expiry (awardPoints w) = no_expiry w"
  by (simp add: awardPoints_def no_expiry_def Let_def split: option.splits)

lemma base_letters: "base w \<Longrightarrow> idx w < length (letters w) \<Longrightarrow> length (letters w) = length (seq w)"
  by (auto simp: base_def)

lemma handleCorrectKey_tidy:
  assumes "tidy w" "inv w"
  shows "tidy (after (handleCorrectKey w))"
proof -
  let ?w1 = "clearTimer (letterT w) w"
  let ?w2 = "clearTimer (flicker ?w1) ?w1"
  have ne: "no_expiry ?w2"
    by (intro no_expiry_clear clear_letterT_no_expiry inv_expiry_handle assms)
  have b: "base ?w2" using assms(1) by (intro base_clear) (simp add: tidy_def)
  have e: "els_ok (Suc (idx w)) ?w2"
    using assms(1) by (intro els_ok_clear) (simp add: tidy_def)
  show ?thesis
  proof (cases "idx w < length (letters w)")
    case False
    have "tidy ?w2" by (rule tidy_between[OF b ne]) (use e in simp)
    with False show ?thesis by (simp add: handleCorrectKey_def Let_def)
  next
    case True
    let ?w3 = "awardPoints (?w2\<lparr>trace := trace ?w2 @ [Burst (letters w ! idx w)]\<rparr>)"
    have l: "length (letters w) = length (seq w)"
      using assms(1) True by (intro base_letters) (simp_all add: tidy_def)
    have "tidy (after (nextLetter ?w3))"
      by (rule nextLetter_tidy) (use b ne e l in simp_all)
    with True show ?thesis by (simp add: handleCorrectKey_def Let_def)
  qed
qed

lemma keyHandler_tidy: "tidy w \<Longrightarrow> inv w \<Longrightarrow> tidy (after (keyHandler key w))"
  by (simp add: keyHandler_def handleCorrectKey_tidy)

lemma base_clock:
  assumes "base w" "clock w \<le> c"
  shows "base (w\<lparr>clock := c\<rparr>)"
proof -
  have "\<forall>e\<in>set (timers w). is_warn (cb (snd e)) \<longrightarrow> due (snd e) \<le> c + FLICKER_DELAY"
  proof (intro ballI impI)
    fix e assume "e \<in> set (timers w)" "is_warn (cb (snd e))"
    then have "due (snd e) \<le> clock w + FLICKER_DELAY" using assms(1) by (simp add: base_def)
    then show "due (snd e) \<le> c + FLICKER_DELAY" using assms(2) by simp
  qed
  then show ?thesis using assms(1) by (simp add: base_def)
qed

lemma els_ok_clock [simp]: "els_ok n (w\<lparr>clock := c\<rparr>) = els_ok n w"
  by (simp add: els_ok_def)

lemma frame_ok_clock [simp]: "frame_ok (w\<lparr>clock := c\<rparr>) = frame_ok w"
  by (simp add: frame_ok_def frame_at_def)

lemma tidy_clock: "tidy w \<Longrightarrow> clock w \<le> c \<Longrightarrow> tidy (w\<lparr>clock := c\<rparr>)"
  by (simp add: tidy_def base_clock)

subsection \<open>An interval is scheduled again\<close>

lemma handle_unique:
  fixes ts :: "(nat \<times> timer) list"
  assumes "sorted_wrt (<) (map fst ts)" "(h, t) \<in> set ts" "e \<in> set ts" "fst e = h"
  shows "e = (h, t)"
proof -
  have c: "(h, snd e) = e" using assms(4) by auto
  have d: "distinct (map fst ts)" by (rule strict_sorted_iff[THEN iffD1, THEN conjunct2, OF assms(1)])
  have "(h, snd e) \<in> set ts" using assms(3) c by simp
  then have "snd e = t" using d assms(2) eq_key_imp_eq_value by fastforce
  with c show ?thesis by simp
qed

lemma retime_fst: "map fst (retime h t' ts) = map fst ts"
  by (induction ts) (simp_all add: retime_def)

lemma retime_origin:
  fixes ts :: "(nat \<times> timer) list"
  assumes "sorted_wrt (<) (map fst ts)" "(h, t) \<in> set ts" "cb t' = cb t" "is_flicker (cb t)"
    and "x \<in> set (retime h t' ts)"
  shows "\<exists>e\<in>set ts. fst x = fst e \<and> cb (snd x) = cb (snd e) \<and>
           (\<not> is_flicker (cb (snd e)) \<longrightarrow> x = e) \<and> (fst e \<noteq> h \<longrightarrow> x = e) \<and> (fst e = h \<longrightarrow> x = (h, t'))"
proof -
  have "x \<in> (\<lambda>e. if fst e = h then (h, t') else e) ` set ts"
    using assms(5) by (simp add: retime_def)
  then obtain e where e: "e \<in> set ts" "x = (if fst e = h then (h, t') else e)"
    by (rule imageE)
  show ?thesis
  proof (cases "fst e = h")
    case True
    then have "e = (h, t)" using handle_unique[OF assms(1,2) e(1)] by simp
    then show ?thesis using e True assms(3,4) by (intro bexI[of _ e]) simp_all
  next
    case False
    then show ?thesis using e by (intro bexI[of _ e]) simp_all
  qed
qed

lemma tidy_retime:
  assumes "tidy w" "(h, t) \<in> set (timers w)" "cb t' = cb t" "is_flicker (cb t)"
  shows "tidy (w\<lparr>timers := retime h t' (timers w)\<rparr>)"
proof -
  let ?ts = "retime h t' (timers w)"
  let ?w = "w\<lparr>timers := ?ts\<rparr>"
  have b: "base w" and el: "els_ok (Suc (idx w)) w" and fr: "frame_ok w"
    using assms(1) by (simp_all add: tidy_def)
  have srt: "sorted_wrt (<) (map fst (timers w))" using b by (simp add: base_def)
  note org = retime_origin[OF srt assms(2,3,4)]
  have img: "fst ` set ?ts = fst ` set (timers w)"
    using retime_fst[of h t' "timers w"] by (metis set_map)
  have 1: "sorted_wrt (<) (map fst ?ts)" using srt by (simp add: retime_fst)
  have 2: "\<forall>e\<in>set ?ts. fst e < nextHandle w"
  proof
    fix x assume "x \<in> set ?ts"
    then obtain e where "e \<in> set (timers w)" "fst x = fst e" using org by blast
    then show "fst x < nextHandle w" using b by (simp add: base_def)
  qed
  have 3: "\<forall>h\<in>set (flickered w). h < nextHandle w \<and> h \<notin> fst ` set ?ts"
    using b unfolding img by (simp add: base_def)
  have 4: "\<forall>e\<in>set ?ts. is_warn (cb (snd e)) \<longrightarrow> due (snd e) \<le> clock w + FLICKER_DELAY"
  proof (intro ballI impI)
    fix x assume x: "x \<in> set ?ts" "is_warn (cb (snd x))"
    then obtain e where e: "e \<in> set (timers w)" "cb (snd x) = cb (snd e)"
        "\<not> is_flicker (cb (snd e)) \<longrightarrow> x = e" using org by blast
    have "\<not> is_flicker (cb (snd e))" using x(2) e(2) by (cases "cb (snd e)") simp_all
    then have "x = e" using e(3) by simp
    then show "due (snd x) \<le> clock w + FLICKER_DELAY" using b e(1) x(2) by (simp add: base_def)
  qed
  have 5: "\<forall>e\<in>set ?ts. period (snd e) \<noteq> None \<longrightarrow> is_flicker (cb (snd e))"
  proof (intro ballI impI)
    fix x assume x: "x \<in> set ?ts" "period (snd x) \<noteq> None"
    then obtain e where e: "e \<in> set (timers w)" "cb (snd x) = cb (snd e)"
        "\<not> is_flicker (cb (snd e)) \<longrightarrow> x = e" using org by blast
    show "is_flicker (cb (snd x))"
    proof (rule ccontr)
      assume n: "\<not> is_flicker (cb (snd x))"
      then have "x = e" using e by simp
      then show False using b e(1) x(2) n by (simp add: base_def)
    qed
  qed
  have base': "base ?w" using 1 2 3 4 5 b by (simp add: base_def)
  have els': "els_ok (Suc (idx w)) ?w"
    unfolding els_ok_def
  proof (intro ballI allI impI)
    fix x y assume x: "x \<in> set (timers ?w)" "cb_el (cb (snd x)) = Some y"
    have xin: "x \<in> set ?ts" using x(1) by simp
    obtain e where e: "e \<in> set (timers w)" "cb (snd x) = cb (snd e)" using org[OF xin] by blast
    show "y < nextEl ?w \<and> y \<notin> set (drop (Suc (idx w)) (letters ?w))"
      using el x(2) e by (simp add: els_ok_def)
  qed
  have frame': "frame_ok ?w"
    unfolding frame_ok_def
  proof (intro ballI allI impI)
    fix x wh el' assume x: "x \<in> set (timers ?w)" "cb (snd x) = ExpiryCb wh el'"
    have xin: "x \<in> set ?ts" using x(1) by simp
    obtain e where e: "e \<in> set (timers w)" "cb (snd x) = cb (snd e)"
        "\<not> is_flicker (cb (snd e)) \<longrightarrow> x = e" using org[OF xin] by blast
    have "\<not> is_flicker (cb (snd e))" using x(2) e(2) by simp
    then have xe: "x = e" using e(3) by simp
    then have fa: "frame_at w x wh el'" using fr e(1) x(2) by (simp add: frame_ok_def)
    have warn: "y \<in> set (timers w)" if yin: "y \<in> set ?ts" and yw: "is_warn (cb (snd y))" for y
    proof -
      obtain e0 where e0: "e0 \<in> set (timers w)" "cb (snd y) = cb (snd e0)"
        "\<not> is_flicker (cb (snd e0)) \<longrightarrow> y = e0" using org[OF yin] by blast
      have "\<not> is_flicker (cb (snd e0))" using yw e0(2) by (cases "cb (snd e0)") simp_all
      then show ?thesis using e0 by simp
    qed
    have a: "\<forall>e'\<in>set ?ts. is_warn (cb (snd e')) \<longrightarrow>
        fst e' \<le> wh \<and> due (snd e') + (FALL_DELAY - FLICKER_DELAY) \<le> due (snd x) \<and>
        (fst e' = wh \<longrightarrow> due (snd e') + (FALL_DELAY - FLICKER_DELAY) = due (snd x))"
      using fa warn unfolding frame_at_def by blast
    have c: "\<forall>e'\<in>set ?ts. cb (snd e') = WarnCb el' \<longrightarrow> fst e' = wh"
    proof (intro ballI impI)
      fix y assume y: "y \<in> set ?ts" "cb (snd y) = WarnCb el'"
      then have "y \<in> set (timers w)" using warn by simp
      then show "fst y = wh" using fa y(2) unfolding frame_at_def by blast
    qed
    have d: "\<forall>e'\<in>set ?ts. cb (snd e') = FlickerCb el' \<longrightarrow>
        wh \<in> set (flickered w) \<and> flicker w = Some (fst e')"
    proof (intro ballI impI)
      fix y assume y: "y \<in> set ?ts" "cb (snd y) = FlickerCb el'"
      then obtain e0 where e0: "e0 \<in> set (timers w)" "fst y = fst e0" "cb (snd y) = cb (snd e0)"
        using org by blast
      then have "cb (snd e0) = FlickerCb el'" using y(2) by simp
      then have "wh \<in> set (flickered w) \<and> flicker w = Some (fst e0)"
        using fa e0(1) unfolding frame_at_def by blast
      then show "wh \<in> set (flickered w) \<and> flicker w = Some (fst y)" using e0(2) by simp
    qed
    have o: "wh \<in> set (flickered w) \<longrightarrow> (\<forall>e'\<in>set ?ts. \<not> is_warn (cb (snd e')))"
      using fa warn unfolding frame_at_def by blast
    show "frame_at ?w x wh el'"
      unfolding frame_at_def using fa a c d o by (simp add: frame_at_def)
  qed
  show ?thesis using base' els' frame' by (simp add: tidy_def)
qed

lemma frame_at_idx: "frame_at w e wh el \<Longrightarrow> idx w < length (letters w) \<and> el = Some (letters w ! idx w)"
  by (simp add: frame_at_def)

lemma frame_at_warn:
  "frame_at w e wh el \<Longrightarrow> e' \<in> set (timers w) \<Longrightarrow> is_warn (cb (snd e')) \<Longrightarrow>
     fst e' \<le> wh \<and> due (snd e') + (FALL_DELAY - FLICKER_DELAY) \<le> due (snd e) \<and>
     (fst e' = wh \<longrightarrow> due (snd e') + (FALL_DELAY - FLICKER_DELAY) = due (snd e))"
  unfolding frame_at_def by blast

lemma frame_at_warncb:
  "frame_at w e wh el \<Longrightarrow> e' \<in> set (timers w) \<Longrightarrow> cb (snd e') = WarnCb el \<Longrightarrow> fst e' = wh"
  unfolding frame_at_def by blast

lemma frame_at_flick:
  "frame_at w e wh el \<Longrightarrow> e' \<in> set (timers w) \<Longrightarrow> cb (snd e') = FlickerCb el \<Longrightarrow>
     wh \<in> set (flickered w) \<and> flicker w = Some (fst e')"
  unfolding frame_at_def by blast

lemma frame_at_nowarn:
  "frame_at w e wh el \<Longrightarrow> wh \<in> set (flickered w) \<Longrightarrow> e' \<in> set (timers w) \<Longrightarrow>
     \<not> is_warn (cb (snd e'))"
  unfolding frame_at_def by blast

lemma frame_atI:
  assumes "idx w < length (letters w)" "el = Some (letters w ! idx w)"
    and "\<And>e'. e' \<in> set (timers w) \<Longrightarrow> is_warn (cb (snd e')) \<Longrightarrow>
        fst e' \<le> wh \<and> due (snd e') + (FALL_DELAY - FLICKER_DELAY) \<le> due (snd e) \<and>
        (fst e' = wh \<longrightarrow> due (snd e') + (FALL_DELAY - FLICKER_DELAY) = due (snd e))"
    and "\<And>e'. e' \<in> set (timers w) \<Longrightarrow> cb (snd e') = WarnCb el \<Longrightarrow> fst e' = wh"
    and "\<And>e'. e' \<in> set (timers w) \<Longrightarrow> cb (snd e') = FlickerCb el \<Longrightarrow>
        wh \<in> set (flickered w) \<and> flicker w = Some (fst e')"
    and "\<And>e'. wh \<in> set (flickered w) \<Longrightarrow> e' \<in> set (timers w) \<Longrightarrow> \<not> is_warn (cb (snd e'))"
  shows "frame_at w e wh el"
  unfolding frame_at_def using assms by blast

lemma warn_fires_tidy:
  assumes t: "tidy w" and ea: "earliest (timers w) = Some (h, tm)" and c: "cb tm = WarnCb el"
    and nc: "clock w \<le> now"
  shows "tidy (after (run_cb h (WarnCb el)
            (w\<lparr>clock := now, timers := filter (\<lambda>e. fst e \<noteq> h) (timers w)\<rparr>)))"
proof -
  define ts where "ts = filter (\<lambda>e. fst e \<noteq> h) (timers w)"
  define I where "I = (nextHandle w, Timer (now + 250) (Some 250) (FlickerCb el))"
  define W where "W = w\<lparr>clock := now, timers := ts @ [I], nextHandle := Suc (nextHandle w),
              flickered := h # flickered w, flicker := Some (nextHandle w)\<rparr>"
  have aft: "after (run_cb h (WarnCb el) (w\<lparr>clock := now, timers := filter (\<lambda>e. fst e \<noteq> h) (timers w)\<rparr>)) = W"
    by (simp add: setInterval_def Let_def W_def ts_def I_def)
  have Wf: "timers W = ts @ [I]" "nextHandle W = Suc (nextHandle w)" "flickered W = h # flickered w"
    "flicker W = Some (nextHandle w)" "clock W = now" "letters W = letters w" "idx W = idx w"
    "seq W = seq w" "nextEl W = nextEl w"
    by (simp_all add: W_def)
  have b: "base w" and el: "els_ok (Suc (idx w)) w" and fr: "frame_ok w"
    using t by (simp_all add: tidy_def)
  have mem: "(h, tm) \<in> set (timers w)" using ea by (rule earliest_mem)
  have srt: "sorted_wrt (<) (map fst (timers w))" using b by (simp add: base_def)
  have hn: "\<And>e. e \<in> set (timers w) \<Longrightarrow> fst e < nextHandle w" using b by (simp add: base_def)
  have hlt: "h < nextHandle w" using hn[OF mem] by simp
  have wm: "is_warn (cb tm)" using c by simp
  have tsD: "\<And>e. e \<in> set ts \<Longrightarrow> e \<in> set (timers w) \<and> fst e \<noteq> h" by (simp add: ts_def)
  have inD: "\<And>e. e \<in> set (ts @ [I]) \<Longrightarrow> e = I \<or> (e \<in> set (timers w) \<and> fst e \<noteq> h)"
    using tsD by auto
  have Ifacts: "fst I = nextHandle w" "cb (snd I) = FlickerCb el" "period (snd I) = Some 250"
    by (simp_all add: I_def)
  have 1: "sorted_wrt (<) (map fst (ts @ [I]))"
  proof -
    have "sorted_wrt (<) (map fst ts)"
      using srt by (simp add: ts_def sorted_wrt_map sorted_wrt_filter)
    moreover have "\<forall>x\<in>set (map fst ts). x < fst I" using tsD hn Ifacts(1) by auto
    ultimately show ?thesis by (simp add: sorted_wrt_append)
  qed
  have 2: "\<forall>e\<in>set (ts @ [I]). fst e < Suc (nextHandle w)"
  proof
    fix e assume "e \<in> set (ts @ [I])"
    then consider "e = I" | "e \<in> set (timers w)" using inD by blast
    then show "fst e < Suc (nextHandle w)"
    proof cases
      case 1 then show ?thesis using Ifacts(1) by simp
    next
      case 2 then show ?thesis using hn[of e] by simp
    qed
  qed
  have 3: "\<forall>k\<in>set (h # flickered w). k < Suc (nextHandle w) \<and> k \<notin> fst ` set (ts @ [I])"
  proof
    fix k assume k: "k \<in> set (h # flickered w)"
    have kl: "k < nextHandle w \<and> (k = h \<or> k \<notin> fst ` set (timers w))"
    proof (cases "k = h")
      case True then show ?thesis using hlt by simp
    next
      case False
      then have "k \<in> set (flickered w)" using k by simp
      then show ?thesis using b by (simp add: base_def)
    qed
    have "k \<notin> fst ` set (ts @ [I])"
    proof
      assume "k \<in> fst ` set (ts @ [I])"
      then obtain e where e: "e \<in> set (ts @ [I])" "k = fst e" by blast
      then consider "e = I" | "e \<in> set (timers w)" "fst e \<noteq> h" using inD by blast
      then show False
      proof cases
        case 1 then show ?thesis using e(2) kl Ifacts(1) by simp
      next
        case 2 then show ?thesis using e(2) kl by blast
      qed
    qed
    then show "k < Suc (nextHandle w) \<and> k \<notin> fst ` set (ts @ [I])" using kl by simp
  qed
  have 4: "\<forall>e\<in>set (ts @ [I]). is_warn (cb (snd e)) \<longrightarrow> due (snd e) \<le> now + FLICKER_DELAY"
  proof (intro ballI impI)
    fix e assume e: "e \<in> set (ts @ [I])" "is_warn (cb (snd e))"
    then have "e \<noteq> I" using Ifacts(2) by auto
    then have "e \<in> set (timers w)" using inD e(1) by blast
    then have "due (snd e) \<le> clock w + FLICKER_DELAY" using b e(2) by (simp add: base_def)
    then show "due (snd e) \<le> now + FLICKER_DELAY" using nc by simp
  qed
  have 5: "\<forall>e\<in>set (ts @ [I]). period (snd e) \<noteq> None \<longrightarrow> is_flicker (cb (snd e))"
  proof (intro ballI impI)
    fix e assume e: "e \<in> set (ts @ [I])" "period (snd e) \<noteq> None"
    then consider "e = I" | "e \<in> set (timers w)" using inD by blast
    then show "is_flicker (cb (snd e))"
    proof cases
      case 1 then show ?thesis using Ifacts(2) by simp
    next
      case 2 then show ?thesis using b e(2) by (simp add: base_def)
    qed
  qed
  have base': "base W" unfolding base_def Wf using 1 2 3 4 5 b by (simp add: base_def)
  have els': "els_ok (Suc (idx W)) W"
    unfolding els_ok_def Wf
  proof (intro ballI allI impI)
    fix e x assume e: "e \<in> set (ts @ [I])" "cb_el (cb (snd e)) = Some x"
    have "\<exists>e0\<in>set (timers w). cb_el (cb (snd e0)) = Some x"
    proof (cases "e = I")
      case True
      then have "cb_el (cb (snd (h, tm))) = Some x" using e(2) c Ifacts(2) by simp
      then show ?thesis using mem by blast
    next
      case False
      then show ?thesis using inD[OF e(1)] e(2) by blast
    qed
    then show "x < nextEl w \<and> x \<notin> set (drop (Suc (idx w)) (letters w))"
      using el unfolding els_ok_def by blast
  qed
  have frame': "frame_ok W"
    unfolding frame_ok_def
  proof (intro ballI allI impI)
    fix x wh el' assume x: "x \<in> set (timers W)" "cb (snd x) = ExpiryCb wh el'"
    have "x \<noteq> I" using x(2) Ifacts(2) by auto
    then have xin: "x \<in> set (timers w)" using inD x(1) unfolding Wf by blast
    then have fa: "frame_at w x wh el'" using fr x(2) by (simp add: frame_ok_def)
    have nof: "wh \<notin> set (flickered w)"
      using frame_at_nowarn[OF fa _ mem] wm by auto
    have noflick: "\<And>y. y \<in> set (timers w) \<Longrightarrow> cb (snd y) \<noteq> FlickerCb el'"
      using frame_at_flick[OF fa] nof by blast
    show "frame_at W x wh el'"
    proof (rule frame_atI)
      show "idx W < length (letters W)" "el' = Some (letters W ! idx W)"
        using frame_at_idx[OF fa] by (simp_all add: Wf)
    next
      fix e' assume e': "e' \<in> set (timers W)" "is_warn (cb (snd e'))"
      then have "e' \<noteq> I" using Ifacts(2) by auto
      then have "e' \<in> set (timers w)" using inD e'(1) unfolding Wf by blast
      then show "fst e' \<le> wh \<and> due (snd e') + (FALL_DELAY - FLICKER_DELAY) \<le> due (snd x) \<and>
        (fst e' = wh \<longrightarrow> due (snd e') + (FALL_DELAY - FLICKER_DELAY) = due (snd x))"
        using frame_at_warn[OF fa _ e'(2)] by blast
    next
      fix e' assume e': "e' \<in> set (timers W)" "cb (snd e') = WarnCb el'"
      then have "e' \<noteq> I" using Ifacts(2) by auto
      then have "e' \<in> set (timers w)" using inD e'(1) unfolding Wf by blast
      then show "fst e' = wh" using frame_at_warncb[OF fa _ e'(2)] by blast
    next
      fix y assume y: "y \<in> set (timers W)" "cb (snd y) = FlickerCb el'"
      have "y \<notin> set (timers w)" using noflick y(2) by blast
      then have yi: "y = I" using inD y(1) unfolding Wf by blast
      then have "el = el'" using y(2) Ifacts(2) by simp
      then have "cb (snd (h, tm)) = WarnCb el'" using c by simp
      then have "fst (h, tm) = wh" using frame_at_warncb[OF fa mem] by blast
      then show "wh \<in> set (flickered W) \<and> flicker W = Some (fst y)"
        using yi Ifacts(1) by (simp add: Wf)
    next
      fix y assume whin: "wh \<in> set (flickered W)" and y: "y \<in> set (timers W)"
      have wh: "wh = h" using whin nof by (simp add: Wf)
      show "\<not> is_warn (cb (snd y))"
      proof
        assume yw: "is_warn (cb (snd y))"
        then have "y \<noteq> I" using Ifacts(2) by auto
        then have yin: "y \<in> set (timers w)" and yh: "fst y \<noteq> h"
          using inD y unfolding Wf by blast+
        have y1: "fst y \<le> h" "due (snd y) + (FALL_DELAY - FLICKER_DELAY) \<le> due (snd x)"
          using frame_at_warn[OF fa yin yw] wh by simp_all
        have "due (snd (h, tm)) + (FALL_DELAY - FLICKER_DELAY) = due (snd x)"
          using frame_at_warn[OF fa mem] wm wh by simp
        then have le: "due (snd y) \<le> due tm" using y1(2) by simp
        have "due (snd (h, tm)) \<le> due (snd y) \<and> (due (snd y) = due (snd (h, tm)) \<longrightarrow> fst (h, tm) \<le> fst y)"
          using earliest_least[OF srt ea] yin by blast
        then have "h \<le> fst y" using le by simp
        with y1(1) yh show False by simp
      qed
    qed
  qed
  show ?thesis unfolding aft using base' els' frame' by (simp add: tidy_def Wf)
qed

lemma tidy_after_flicker: "tidy w \<Longrightarrow> tidy (after (run_cb h (FlickerCb el) w))"
  by (cases el) simp_all

lemma expiry_fires_tidy:
  assumes t: "tidy w" and i: "inv w" and mem: "(h, tm) \<in> set (timers w)"
    and c: "cb tm = ExpiryCb wh el" and nc: "clock w \<le> now"
  shows "tidy (after (run_cb h (ExpiryCb wh el)
            (w\<lparr>clock := now, timers := filter (\<lambda>e. fst e \<noteq> h) (timers w)\<rparr>)))"
proof -
  define w1 where "w1 = w\<lparr>clock := now, timers := filter (\<lambda>e. fst e \<noteq> h) (timers w)\<rparr>"
  define w2 where "w2 = (if wh \<in> set (flickered w1) then clearTimer (flicker w1) w1 else w1)"
  have t1: "tidy w1"
    unfolding w1_def using tidy_filter[OF tidy_clock[OF t nc], of "\<lambda>e. fst e \<noteq> h"] by simp
  have lt: "letterT w = Some h" using inv_expiry_handle[OF i] mem c by fastforce
  have ne1: "no_expiry w1"
    unfolding no_expiry_def w1_def using inv_expiry_handle[OF i] lt by auto
  have t2: "tidy w2" using t1 by (simp add: w2_def tidy_clear)
  have ne2: "no_expiry w2" using ne1 by (simp add: w2_def no_expiry_clear)
  have f2: "idx w2 = idx w" "letters w2 = letters w" "seq w2 = seq w"
    by (simp_all add: w2_def w1_def)
  show ?thesis
  proof (cases el)
    case None
    have "after (run_cb h (ExpiryCb wh None) w1) = w2" by (simp add: w2_def Let_def)
    then show ?thesis using t2 None unfolding w1_def by simp
  next
    case (Some e)
    have "frame_at w (h, tm) wh el" using t mem c by (auto simp: tidy_def frame_ok_def)
    then have il: "idx w < length (letters w)" using frame_at_idx by blast
    have l: "length (letters w) = length (seq w)"
      using t il by (intro base_letters) (simp_all add: tidy_def)
    have "tidy (after (nextLetter (w2\<lparr>trace := trace w2 @ [Fall e]\<rparr>)))"
      by (rule nextLetter_tidy) (use t2 ne2 l f2 in \<open>simp_all add: tidy_def\<close>)
    moreover have "after (run_cb h (ExpiryCb wh (Some e)) w1) =
        after (nextLetter (w2\<lparr>trace := trace w2 @ [Fall e]\<rparr>))"
      by (simp add: w2_def Let_def)
    ultimately show ?thesis using Some unfolding w1_def by simp
  qed
qed

lemma fire_tidy:
  assumes t: "tidy w" and i: "inv w"
  shows "tidy (after (fire w))"
proof (cases "earliest (timers w)")
  case None
  then show ?thesis using t by (simp add: fire_def)
next
  case (Some x)
  obtain h tm where x: "x = (h, tm)" by (cases x)
  have ea: "earliest (timers w) = Some (h, tm)" using Some x by simp
  have mem: "(h, tm) \<in> set (timers w)" using ea by (rule earliest_mem)
  define now where "now = max (clock w) (due tm)"
  have nc: "clock w \<le> now" by (simp add: now_def)
  show ?thesis
  proof (cases "period tm")
    case (Some p)
    have fl: "is_flicker (cb tm)" using t mem Some by (auto simp: tidy_def base_def)
    then obtain el where c: "cb tm = FlickerCb el" by (cases "cb tm") simp_all
    define W where "W = w\<lparr>clock := now, timers := retime h (Timer (now + p) (Some p) (cb tm)) (timers w)\<rparr>"
    have fire: "fire w = run_cb h (cb tm) W"
      unfolding W_def retime_def now_def using ea Some by (simp add: fire_def Let_def)
    have "tidy ((w\<lparr>clock := now\<rparr>)\<lparr>timers := retime h (Timer (now + p) (Some p) (cb tm)) (timers (w\<lparr>clock := now\<rparr>))\<rparr>)"
      by (rule tidy_retime[OF tidy_clock[OF t nc]]) (use mem fl in simp_all)
    then have "tidy W" by (simp add: W_def)
    then have "tidy (after (run_cb h (FlickerCb el) W))" by (rule tidy_after_flicker)
    then show ?thesis unfolding fire c .
  next
    case None
    have fire: "fire w = run_cb h (cb tm)
        (w\<lparr>clock := now, timers := filter (\<lambda>e. fst e \<noteq> h) (timers w)\<rparr>)"
      using ea None by (simp add: fire_def Let_def now_def)
    show ?thesis
    proof (cases "cb tm")
      case (WarnCb el)
      show ?thesis unfolding fire WarnCb by (rule warn_fires_tidy[OF t ea WarnCb nc])
    next
      case (FlickerCb el)
      have "tidy (w\<lparr>clock := now, timers := filter (\<lambda>e. fst e \<noteq> h) (timers w)\<rparr>)"
        using tidy_filter[OF tidy_clock[OF t nc], of "\<lambda>e. fst e \<noteq> h"] by simp
      then show ?thesis unfolding fire FlickerCb by (rule tidy_after_flicker)
    next
      case (ExpiryCb wh el)
      show ?thesis unfolding fire ExpiryCb by (rule expiry_fires_tidy[OF t i mem ExpiryCb nc])
    qed
  qed
qed

lemma tidy_new: "tidy (UyghurTypingGame c m ls)"
  by (simp add: UyghurTypingGame_def resetState_def clearTimer_def tidy_def base_def els_ok_def
      frame_ok_def)

lemma reset_like_tidy:
  assumes "tidy w" "inv w"
  shows "tidy (resetState w)" "base (resetState w)" "no_expiry (resetState w)"
    "els_ok n (resetState w)"
proof -
  let ?w1 = "w\<lparr>seq := [], letters := [], idx := 0\<rparr>"
  have b1: "base ?w1" using assms(1) by (simp add: tidy_def base_def)
  have e1: "els_ok n ?w1" using assms(1) by (auto simp: tidy_def els_ok_def)
  have rs: "resetState w = clearTimer (flicker ?w1) (clearTimer (letterT ?w1) ?w1)"
    by (simp add: resetState_def Let_def)
  show b: "base (resetState w)" unfolding rs by (intro base_clear b1)
  show ne: "no_expiry (resetState w)" by (rule resetState_no_expiry[OF assms(2)])
  show e: "els_ok n (resetState w)" unfolding rs by (intro els_ok_clear e1)
  have "els_ok (Suc (idx (resetState w))) (resetState w)" unfolding rs by (intro els_ok_clear) (use assms(1) in \<open>auto simp: tidy_def els_ok_def\<close>)
  then show "tidy (resetState w)" by (intro tidy_between b ne)
qed

lemma clearRender_tidy:
  assumes "tidy w" "inv w"
  shows "tidy (clearRender w)"
proof -
  let ?w1 = "w\<lparr>letters := []\<rparr>"
  have b1: "base ?w1" using assms(1) by (simp add: tidy_def base_def)
  have e1: "els_ok (Suc (idx w)) ?w1" using assms(1) by (auto simp: tidy_def els_ok_def)
  have rs: "clearRender w = clearTimer (flicker ?w1) (clearTimer (letterT ?w1) ?w1)"
    by (simp add: clearRender_def Let_def)
  have b: "base (clearRender w)" unfolding rs by (intro base_clear b1)
  have ne: "no_expiry (clearRender w)"
    by (rule clearRender_no_expiry[OF inv_expiry_handle[OF assms(2)]])
  have "els_ok (Suc (idx w)) (clearRender w)" unfolding rs by (intro els_ok_clear e1)
  then show ?thesis by (intro tidy_between b ne) simp
qed

lemma start_tidy:
  assumes "tidy w" "inv w"
  shows "tidy (start rnd w)"
proof -
  define w1 where "w1 = newSequence rnd ((resetState w)\<lparr>listening := True\<rparr>)"
  define w2 where "w2 = clearRender w1"
  define els where "els = [nextEl w2 ..< nextEl w2 + length (seq w2)]"
  define w3 where "w3 = w2\<lparr>letters := els, nextEl := nextEl w2 + length (seq w2),
                 trace := trace w2 @ [Rendered els]\<rparr>"
  have st: "start rnd w = startTimer w3"
    by (simp add: start_def render_def Let_def w1_def w2_def w3_def els_def)
  have b1: "base w1"
    using reset_like_tidy(2)[OF assms] by (simp add: w1_def newSequence_def base_def)
  have ne1: "no_expiry w1"
    using reset_like_tidy(3)[OF assms] by (simp add: w1_def newSequence_def no_expiry_def)
  have e1: "els_ok 0 w1"
    using reset_like_tidy(4)[OF assms, of 0] by (simp add: w1_def newSequence_def els_ok_def)
  have rs: "w2 = clearTimer (flicker (w1\<lparr>letters := []\<rparr>)) (clearTimer (letterT (w1\<lparr>letters := []\<rparr>)) (w1\<lparr>letters := []\<rparr>))"
    by (simp add: w2_def clearRender_def Let_def)
  have b2: "base w2" unfolding rs by (intro base_clear) (use b1 in \<open>simp add: base_def\<close>)
  have ne2: "no_expiry w2"
    unfolding w2_def by (rule clearRender_no_expiry) (use ne1 in \<open>simp add: no_expiry_def\<close>)
  have e2: "els_ok 0 w2" unfolding rs by (intro els_ok_clear) (use e1 in \<open>auto simp: els_ok_def\<close>)
  have old: "\<And>e x. e \<in> set (timers w2) \<Longrightarrow> cb_el (cb (snd e)) = Some x \<Longrightarrow> x < nextEl w2"
    using e2 unfolding els_ok_def by blast
  have b3: "base w3"
    using b2 by (auto simp: base_def w3_def els_def)
  have ne3: "no_expiry w3" using ne2 by (simp add: no_expiry_def w3_def)
  have e3: "els_ok (idx w3) w3"
    unfolding els_ok_def
  proof (intro ballI allI impI)
    fix e x assume "e \<in> set (timers w3)" "cb_el (cb (snd e)) = Some x"
    then have "x < nextEl w2" using old by (simp add: w3_def)
    then show "x < nextEl w3 \<and> x \<notin> set (drop (idx w3) (letters w3))"
      using in_set_dropD[of x "idx w3" "letters w3"] by (auto simp: w3_def els_def)
  qed
  have l3: "length (letters w3) = length (seq w3)" by (simp add: w3_def els_def)
  show ?thesis unfolding st by (rule startTimer_tidy[OF b3 ne3 e3 l3])
qed

lemma step_tidy:
  assumes "tidy w" "inv w"
  shows "tidy (step a w)"
proof (cases a)
  case (Elapse d)
  then show ?thesis using tidy_clock[OF assms(1), of "clock w + d"] by simp
next
  case Fire
  then show ?thesis using fire_tidy[OF assms] by (simp add: tidy_settle)
next
  case (KeyDown key)
  then show ?thesis using keyHandler_tidy[OF assms] assms(1) by (simp add: tidy_settle)
next
  case (Start rnd)
  then show ?thesis using start_tidy[OF assms] by simp
next
  case ResetState
  then show ?thesis using reset_like_tidy(1)[OF assms] by simp
next
  case ClearRender
  then show ?thesis using clearRender_tidy[OF assms] by simp
next
  case RemoveListener
  then show ?thesis using assms(1) by simp
next
  case ScoreReset
  then show ?thesis using assms(1) by simp
next
  case ScoreSave
  then show ?thesis using assms(1) by (simp split: option.splits)
qed

lemma run_tidy_inv: "tidy w \<Longrightarrow> inv w \<Longrightarrow> tidy (run acts w) \<and> inv (run acts w)"
  unfolding run_def by (induction acts arbitrary: w) (simp_all add: step_tidy step_inv)

lemma nextLetter_timers:
  "y \<in> set (timers (after (nextLetter w))) \<Longrightarrow> y \<in> set (timers w) \<or> \<not> is_flicker (cb (snd y))"
  by (auto simp: nextLetter_def endGame_def shiftLetters_def startTimer_def setTimeout_def Let_def
      split: if_splits option.splits)

lemma nextLetter_frame:
  "idx (after (nextLetter w)) = idx w + 1"
  "scoreManager (after (nextLetter w)) = scoreManager w"
  "localStorage (after (nextLetter w)) = localStorage w"
  by (simp_all add: nextLetter_def endGame_def shiftLetters_def Let_def split: option.splits)

lemma expiry_fire_effect:
  assumes t: "tidy w" and i: "inv w" and ea: "earliest (timers w) = Some (h, tm)"
    and c: "cb tm = ExpiryCb wh el"
  shows "idx w < length (letters w) \<and> el = Some (letters w ! idx w) \<and>
         (\<forall>y\<in>set (timers (step Fire w)). cb (snd y) \<noteq> FlickerCb el) \<and>
         idx (step Fire w) = idx w + 1 \<and>
         scoreManager (step Fire w) = scoreManager w \<and>
         localStorage (step Fire w) = localStorage w"
proof -
  have mem: "(h, tm) \<in> set (timers w)" using ea by (rule earliest_mem)
  have fa: "frame_at w (h, tm) wh el" using t mem c by (auto simp: tidy_def frame_ok_def)
  obtain e where el: "el = Some e" and il: "idx w < length (letters w)"
    and e: "e = letters w ! idx w" using frame_at_idx[OF fa] by blast
  have "expiry_ok w (h, tm)" using i mem by (auto simp: inv_def)
  then have p: "period tm = None" using c by (simp add: expiry_ok_def)
  define w1 where "w1 = w\<lparr>clock := max (clock w) (due tm), timers := filter (\<lambda>e. fst e \<noteq> h) (timers w)\<rparr>"
  define w2 where "w2 = (if wh \<in> set (flickered w1) then clearTimer (flicker w1) w1 else w1)"
  define w3 where "w3 = w2\<lparr>trace := trace w2 @ [Fall e]\<rparr>"
  have fire: "fire w = nextLetter w3"
    using ea p c el by (simp add: fire_def Let_def w1_def w2_def w3_def)
  have st: "step Fire w = settle (nextLetter w3)" by (simp add: fire)
  have sf: "timers (settle out) = timers (after out)" "idx (settle out) = idx (after out)"
    "scoreManager (settle out) = scoreManager (after out)"
    "localStorage (settle out) = localStorage (after out)" for out
    by (cases out; auto)+
  have f3: "idx w3 = idx w" "scoreManager w3 = scoreManager w" "localStorage w3 = localStorage w"
    by (simp_all add: w3_def w2_def w1_def)
  have no2: "\<And>y. y \<in> set (timers w3) \<Longrightarrow> cb (snd y) \<noteq> FlickerCb el"
  proof
    fix y assume y: "y \<in> set (timers w3)" "cb (snd y) = FlickerCb el"
    have yin: "y \<in> set (timers w)"
      using y(1) by (auto simp: w3_def w2_def w1_def clearTimer_filter split: if_splits)
    have j: "wh \<in> set (flickered w)" "flicker w = Some (fst y)"
      using frame_at_flick[OF fa yin y(2)] by simp_all
    then have "timers w3 = filter (\<lambda>e. Some (fst e) \<noteq> Some (fst y)) (filter (\<lambda>e. fst e \<noteq> h) (timers w))"
      by (simp add: w3_def w2_def w1_def clearTimer_filter)
    then show False using y(1) by simp
  qed
  have "\<forall>y\<in>set (timers (step Fire w)). cb (snd y) \<noteq> FlickerCb el"
  proof
    fix y assume "y \<in> set (timers (step Fire w))"
    then have "y \<in> set (timers (after (nextLetter w3)))" by (simp add: sf fire)
    then have d: "y \<in> set (timers w3) \<or> \<not> is_flicker (cb (snd y))" by (rule nextLetter_timers)
    show "cb (snd y) \<noteq> FlickerCb el"
    proof
      assume f: "cb (snd y) = FlickerCb el"
      then have "y \<in> set (timers w3)" using d by simp
      then show False using no2[of y] f by simp
    qed
  qed
  then show ?thesis using il el e by (simp add: sf fire nextLetter_frame f3)
qed

lemma quiet_refl: "quiet w w"
  by (simp add: quiet_def)

lemma quiet_trans: "quiet a b \<Longrightarrow> quiet b c \<Longrightarrow> quiet a c"
  by (auto simp: quiet_def)

lemma nextLetter_quiet: "quiet w (settle (nextLetter w))"
  by (simp add: quiet_def nextLetter_def endGame_def shiftLetters_def Let_def split: option.splits)

lemma run_cb_quiet: "quiet w (settle (run_cb h f w))"
proof (cases f)
  case (WarnCb el)
  then show ?thesis by (simp add: quiet_def setInterval_def Let_def)
next
  case (FlickerCb el)
  then show ?thesis by (cases el) (simp_all add: quiet_def)
next
  case (ExpiryCb wh el)
  define w1 where "w1 = (if wh \<in> set (flickered w) then clearTimer (flicker w) w else w)"
  have q1: "quiet w w1" by (simp add: quiet_def w1_def)
  show ?thesis
  proof (cases el)
    case None
    then show ?thesis unfolding ExpiryCb by (simp add: quiet_def Let_def)
  next
    case (Some e)
    have "quiet w (w1\<lparr>trace := trace w1 @ [Fall e]\<rparr>)" by (simp add: quiet_def w1_def)
    then have "quiet w (settle (nextLetter (w1\<lparr>trace := trace w1 @ [Fall e]\<rparr>)))"
      using nextLetter_quiet quiet_trans by blast
    then show ?thesis unfolding ExpiryCb Some by (simp add: w1_def Let_def)
  qed
qed

lemma fire_quiet: "quiet w (settle (fire w))"
proof (cases "earliest (timers w)")
  case None
  then show ?thesis by (simp add: fire_def quiet_def)
next
  case (Some x)
  obtain h tm where x: "x = (h, tm)" by (cases x)
  have "quiet w (w\<lparr>clock := c, timers := ts\<rparr>)" for c ts by (simp add: quiet_def)
  then have "quiet w (settle (run_cb h (cb tm) (w\<lparr>clock := c, timers := ts\<rparr>)))" for c ts
    using run_cb_quiet quiet_trans by blast
  then show ?thesis using Some x by (simp add: fire_def Let_def)
qed

lemma passive_step_quiet: "is_passive a \<Longrightarrow> quiet w (step a w)"
proof (cases a)
  case Fire
  then show ?thesis by (simp add: fire_quiet)
next
  case ScoreSave
  then show ?thesis by (simp add: quiet_def split: option.splits)
qed (simp_all add: quiet_def)

lemma passive_run_quiet: "\<forall>a\<in>set acts. is_passive a \<Longrightarrow> quiet w (run acts w)"
  unfolding run_def
proof (induction acts arbitrary: w)
  case Nil
  then show ?case by (simp add: quiet_refl)
next
  case (Cons a acts)
  have "quiet w (step a w)" using Cons.prems by (simp add: passive_step_quiet)
  moreover have "quiet (step a w) (fold step acts (step a w))" using Cons by simp
  ultimately show ?case using quiet_trans by fastforce
qed

lemma passive_play: "is_passive a \<Longrightarrow> is_play a"
  by (cases a) simp_all

lemma start_quiet: "quiet w (start rnd w)"
  by (simp add: quiet_def start_def render_def newSequence_def Let_def)

lemma passive_session:
  assumes w0: "w0 = run pre (UyghurTypingGame True (Some m0) ls)"
    and w2: "w2 = run acts (start rnd (step ScoreReset w0))"
    and pas: "\<forall>a\<in>set acts. is_passive a"
  shows "map_option score (scoreManager w2) = Some (Num 0) \<and>
         map_option totalScore (scoreManager w2) = map_option totalScore (scoreManager w0) \<and>
         gameovers (drop (length (trace w0)) (trace w2)) = (if MAX_ADVANCE \<le> idx w2 then [Num 0] else [])"
proof -
  have "attached (UyghurTypingGame True (Some m0) ls)"
    by (simp add: attached_def UyghurTypingGame_def)
  then have "attached w0" unfolding w0 by (rule run_attached)
  then obtain m where m: "scoreManager w0 = Some m" by (auto simp: attached_def)
  have play: "\<forall>a\<in>set acts. is_play a" using pas passive_play by blast
  have a: "acc (length (trace w0)) (totalScore m) w2"
    using session_acc(1)[OF m[unfolded w0] play, of rnd] unfolding w0 w2 by simp
  have "quiet w0 (step ScoreReset w0)" by (simp add: quiet_def)
  then have "quiet w0 (start rnd (step ScoreReset w0))" using start_quiet quiet_trans by blast
  then have "quiet w0 w2" unfolding w2 using passive_run_quiet[OF pas] quiet_trans by blast
  then obtain es where es: "trace w2 = trace w0 @ es" "bursts es = 0"
    by (auto simp: quiet_def)
  have b: "bursts (drop (length (trace w0)) (trace w2)) = 0" using es by simp
  show ?thesis using a b m by (auto simp: acc_def)
qed

lemma replicate_numeral_Cons: "replicate (numeral k) x = x # replicate (pred_numeral k) x"
  by (simp add: numeral_eq_Suc)

lemma fresh_session_ends:
  "(let w = run (replicate 91 Fire)
              (start rnd (step ScoreReset (UyghurTypingGame True (Some m0) ls)))
    in gameovers (trace w) = [Num 0] \<and> timers w = [] \<and> clock w = 70000 \<and> idx w = MAX_ADVANCE)"
  by (simp add: run_def UyghurTypingGame_def resetState_def clearTimer_def start_def render_def
      clearRender_def newSequence_def startTimer_def setTimeout_def setInterval_def nextLetter_def
      shiftLetters_def fire_def endGame_def LETTER_COUNT_def MAX_ADVANCE_def FLICKER_DELAY_def
      FALL_DELAY_def Let_def upt_rec getScore_def reset_def replicate_numeral_Cons)

lemma expiry_fire_trace:
  assumes t: "tidy w" and i: "inv w" and ea: "earliest (timers w) = Some (h, tm)"
    and c: "cb tm = ExpiryCb wh (Some e)"
  shows "\<exists>es. trace (step Fire w) = trace w @ Fall e # es"
proof -
  have mem: "(h, tm) \<in> set (timers w)" using ea by (rule earliest_mem)
  have "expiry_ok w (h, tm)" using i mem by (auto simp: inv_def)
  then have p: "period tm = None" using c by (simp add: expiry_ok_def)
  define w1 where "w1 = w\<lparr>clock := max (clock w) (due tm), timers := filter (\<lambda>e. fst e \<noteq> h) (timers w)\<rparr>"
  define w2 where "w2 = (if wh \<in> set (flickered w1) then clearTimer (flicker w1) w1 else w1)"
  define w3 where "w3 = w2\<lparr>trace := trace w2 @ [Fall e]\<rparr>"
  have fire: "fire w = nextLetter w3"
    using ea p c by (simp add: fire_def Let_def w1_def w2_def w3_def)
  have t3: "trace w3 = trace w @ [Fall e]" by (simp add: w3_def w2_def w1_def)
  obtain es where "trace (settle (nextLetter w3)) = trace w3 @ es"
    using nextLetter_quiet[of w3] by (auto simp: quiet_def)
  then show ?thesis by (simp add: fire t3)
qed

section \<open>A session left alone ends\<close>

lemma sum_filter_handle:
  fixes ts :: "(nat \<times> timer) list" and f :: "nat \<times> timer \<Rightarrow> nat"
  assumes "distinct (map fst ts)" "(h, t) \<in> set ts"
  shows "sum_list (map f (filter (\<lambda>e. fst e \<noteq> h) ts)) + f (h, t) = sum_list (map f ts)"
  using assms
proof (induction ts)
  case Nil
  then show ?case by simp
next
  case (Cons a ts)
  have na: "fst a \<notin> fst ` set ts" and d: "distinct (map fst ts)" using Cons.prems(1) by simp_all
  show ?case
  proof (cases "a = (h, t)")
    case True
    then have "\<forall>e\<in>set ts. fst e \<noteq> h" using na by auto
    then have "filter (\<lambda>e. fst e \<noteq> h) ts = ts" by (simp add: filter_id_conv)
    then show ?thesis using True by simp
  next
    case False
    then have m: "(h, t) \<in> set ts" using Cons.prems(2) by simp
    then have "h \<in> fst ` set ts" by force
    then have "fst a \<noteq> h" using na by auto
    moreover have "sum_list (map f (filter (\<lambda>e. fst e \<noteq> h) ts)) + f (h, t) = sum_list (map f ts)"
      using Cons.IH d m by simp
    ultimately show ?thesis by simp
  qed
qed

lemma sum_retime:
  fixes ts :: "(nat \<times> timer) list" and f :: "nat \<times> timer \<Rightarrow> nat"
  assumes "distinct (map fst ts)" "(h, t) \<in> set ts"
  shows "sum_list (map f (retime h t' ts)) + f (h, t) = sum_list (map f ts) + f (h, t')"
  using assms
proof (induction ts)
  case Nil
  then show ?case by simp
next
  case (Cons a ts)
  have na: "fst a \<notin> fst ` set ts" and d: "distinct (map fst ts)" using Cons.prems(1) by simp_all
  show ?case
  proof (cases "a = (h, t)")
    case True
    then have "\<forall>e\<in>set ts. fst e \<noteq> h" using na by auto
    then have "retime h t' ts = ts" by (simp add: retime_def map_idI)
    then show ?thesis using True by (simp add: retime_def)
  next
    case False
    then have m: "(h, t) \<in> set ts" using Cons.prems(2) by simp
    then have "h \<in> fst ` set ts" by force
    then have "fst a \<noteq> h" using na by auto
    moreover have "sum_list (map f (retime h t' ts)) + f (h, t) = sum_list (map f ts) + f (h, t')"
      using Cons.IH d m by simp
    ultimately show ?thesis by (simp add: retime_def)
  qed
qed

lemma tick_arith:
  fixes D d now :: nat
  assumes "d \<le> now" "now + 250 \<le> D"
  shows "(D - (now + 250)) div 250 < (D - d) div 250"
proof -
  define x where "x = D - (now + 250)"
  have "x + 250 \<le> D - d" using assms by (simp add: x_def)
  then have "(x + 250) div 250 \<le> (D - d) div 250" by (rule div_le_mono)
  moreover have "(x + 250) div 250 = x div 250 + 1" by (rule div_add_self2) simp
  ultimately show ?thesis unfolding x_def by linarith
qed

lemma wt_tick:
  assumes "due t \<le> D" "cb t = FlickerCb el" "due t \<le> now"
  shows "wt D (h, Timer (now + 250) pp (cb t)) < wt D (h, t)"
proof (cases "now + 250 \<le> D")
  case False
  then show ?thesis using assms(1,2) by (simp add: wt_def)
next
  case True
  then show ?thesis using assms(1,2) tick_arith[OF assms(3) True] by (simp add: wt_def)
qed

lemma wt_warn:
  assumes "due t \<le> D" "cb t = WarnCb el" "due t \<le> now"
  shows "wt D (h', Timer (now + 250) pp (FlickerCb el)) < wt D (h, t)"
proof (cases "now + 250 \<le> D")
  case False
  then show ?thesis using assms(1,2) by (simp add: wt_def)
next
  case True
  then show ?thesis using assms(1,2) tick_arith[OF assms(3) True] by (simp add: wt_def)
qed

subsection \<open>Intervals tick every 250 ms\<close>

lemma periods_timers: "timers w' = timers w \<Longrightarrow> periods w' = periods w"
  by (simp add: periods_def)

lemma periods_settle: "periods (settle out) = periods (after out)"
  by (cases out) (auto simp: periods_def)

lemma periods_clear: "periods w \<Longrightarrow> periods (clearTimer ho w)"
  unfolding clearTimer_filter periods_def by auto

lemma periods_startTimer: "periods w \<Longrightarrow> periods (startTimer w)"
  unfolding periods_def startTimer_def setTimeout_def Let_def by auto

lemma periods_nextLetter: "periods w \<Longrightarrow> periods (after (nextLetter w))"
proof -
  assume p: "periods w"
  have "periods (shiftLetters (w\<lparr>idx := idx w + 1\<rparr>))"
    using p by (simp add: periods_def shiftLetters_def)
  then have "periods (startTimer (shiftLetters (w\<lparr>idx := idx w + 1\<rparr>)))"
    by (rule periods_startTimer)
  moreover have "periods (after (endGame (w\<lparr>idx := idx w + 1\<rparr>)))"
    using p by (simp add: periods_def endGame_after)
  ultimately show ?thesis by (simp add: nextLetter_def Let_def)
qed

lemma periods_keyHandler: "periods w \<Longrightarrow> periods (after (keyHandler key w))"
proof -
  assume p: "periods w"
  let ?w2 = "clearTimer (flicker (clearTimer (letterT w) w)) (clearTimer (letterT w) w)"
  have p2: "periods ?w2" using p by (intro periods_clear)
  have "periods (after (nextLetter (awardPoints (?w2\<lparr>trace := trace ?w2 @ [Burst e]\<rparr>))))" for e
    by (rule periods_nextLetter) (use p2 in \<open>simp add: periods_def\<close>)
  then show ?thesis using p p2
    by (simp add: keyHandler_def handleCorrectKey_def Let_def)
qed

lemma periods_run_cb: "periods w \<Longrightarrow> periods (after (run_cb h f w))"
proof (cases f)
  case (WarnCb el)
  assume "periods w" then show ?thesis using WarnCb
    by (auto simp: periods_def setInterval_def Let_def)
next
  case (FlickerCb el)
  assume "periods w" then show ?thesis using FlickerCb
    by (cases el) (simp_all add: periods_def)
next
  case (ExpiryCb wh el)
  assume p: "periods w"
  define w1 where "w1 = (if wh \<in> set (flickered w) then clearTimer (flicker w) w else w)"
  have p1: "periods w1" using p by (simp add: w1_def periods_clear)
  have "periods (after (nextLetter (w1\<lparr>trace := trace w1 @ [Fall e]\<rparr>)))" for e
    by (rule periods_nextLetter) (use p1 in \<open>simp add: periods_def\<close>)
  then show ?thesis using p1 unfolding ExpiryCb
    by (cases el) (simp_all add: w1_def Let_def)
qed

lemma periods_fire: "periods w \<Longrightarrow> periods (after (fire w))"
proof (cases "earliest (timers w)")
  case None
  assume "periods w" then show ?thesis using None by (simp add: fire_def)
next
  case (Some x)
  assume p: "periods w"
  obtain h tm where x: "x = (h, tm)" by (cases x)
  have mem: "(h, tm) \<in> set (timers w)" using earliest_mem[OF Some] x by simp
  define now where "now = max (clock w) (due tm)"
  define ts where "ts = (case period tm of
       None \<Rightarrow> filter (\<lambda>e. fst e \<noteq> h) (timers w)
     | Some p \<Rightarrow> map (\<lambda>e. if fst e = h then (h, Timer (now + p) (Some p) (cb tm)) else e) (timers w))"
  have fire: "fire w = run_cb h (cb tm) (w\<lparr>clock := now, timers := ts\<rparr>)"
    unfolding ts_def now_def using Some x by (simp add: fire_def Let_def)
  have "\<forall>e\<in>set ts. period (snd e) = None \<or> period (snd e) = Some 250"
  proof (cases "period tm")
    case None
    then show ?thesis using p by (simp add: ts_def periods_def)
  next
    case (Some q)
    then have "q = 250" using p mem by (fastforce simp: periods_def)
    then show ?thesis using p Some by (auto simp: ts_def periods_def)
  qed
  then have "periods (w\<lparr>clock := now, timers := ts\<rparr>)" by (simp add: periods_def)
  then show ?thesis unfolding fire by (rule periods_run_cb)
qed

lemma periods_resetState: "periods w \<Longrightarrow> periods (resetState w)"
proof -
  assume "periods w"
  then have "periods (w\<lparr>seq := [], letters := [], idx := 0\<rparr>)" by (simp add: periods_def)
  then show ?thesis unfolding resetState_def Let_def by (intro periods_clear)
qed

lemma periods_clearRender: "periods w \<Longrightarrow> periods (clearRender w)"
proof -
  assume "periods w"
  then have "periods (w\<lparr>letters := []\<rparr>)" by (simp add: periods_def)
  then show ?thesis unfolding clearRender_def Let_def by (intro periods_clear)
qed

lemma periods_start: "periods w \<Longrightarrow> periods (start rnd w)"
proof -
  assume p: "periods w"
  let ?w1 = "newSequence rnd ((resetState w)\<lparr>listening := True\<rparr>)"
  have "periods ?w1" using periods_resetState[OF p] by (simp add: periods_def newSequence_def)
  then have "periods (clearRender ?w1)" by (rule periods_clearRender)
  then have "periods (startTimer ((clearRender ?w1)\<lparr>letters := ls, nextEl := n, trace := tr\<rparr>))" for ls n tr
    by (intro periods_startTimer) (simp add: periods_def)
  then show ?thesis by (simp add: start_def render_def Let_def)
qed

lemma periods_step: "periods w \<Longrightarrow> periods (step a w)"
proof (cases a)
  case Fire
  assume "periods w" then show ?thesis using Fire by (simp add: periods_settle periods_fire)
next
  case (KeyDown k)
  assume "periods w" then show ?thesis using KeyDown by (simp add: periods_settle periods_keyHandler)
next
  case (Start rnd)
  assume "periods w" then show ?thesis using Start by (simp add: periods_start)
next
  case ResetState
  assume "periods w" then show ?thesis using ResetState by (simp add: periods_resetState)
next
  case ClearRender
  assume "periods w" then show ?thesis using ClearRender by (simp add: periods_clearRender)
next
  case ScoreSave
  assume "periods w" then show ?thesis using ScoreSave by (simp add: periods_def split: option.splits)
qed (simp_all add: periods_def)

lemma periods_run: "periods w \<Longrightarrow> periods (run acts w)"
  unfolding run_def by (induction acts arbitrary: w) (simp_all add: periods_step)

lemma periods_new: "periods (UyghurTypingGame c m ls)"
  by (simp add: UyghurTypingGame_def resetState_def clearTimer_def periods_def)

lemma retime_keeps: "e \<in> set ts \<Longrightarrow> fst e \<noteq> h \<Longrightarrow> e \<in> set (retime h t' ts)"
  unfolding retime_def set_map by force

lemma handles_distinct: "tidy w \<Longrightarrow> distinct (map fst (timers w))"
proof -
  assume "tidy w"
  then have "sorted_wrt (<) (map fst (timers w))" by (simp add: tidy_def base_def)
  then show ?thesis by (rule strict_sorted_iff[THEN iffD1, THEN conjunct2])
qed

lemma wt_pos: "due (snd e) \<le> D \<Longrightarrow> \<not> is_expiry (cb (snd e)) \<Longrightarrow> 0 < wt D e"
  by (cases "cb (snd e)") (simp_all add: wt_def)

lemma other_fire:
  assumes t: "tidy w" and i: "inv w" and p: "periods w"
    and ea: "earliest (timers w) = Some (h, tm)" and ne: "\<not> is_expiry (cb tm)"
    and E: "(hE, tE) \<in> set (timers w)" "is_expiry (cb tE)"
  shows "load (due tE) (step Fire w) < load (due tE) w \<and> (hE, tE) \<in> set (timers (step Fire w)) \<and>
         idx (step Fire w) = idx w \<and> seq (step Fire w) = seq w"
proof -
  define D where "D = due tE"
  have mem: "(h, tm) \<in> set (timers w)" using ea by (rule earliest_mem)
  have srt: "sorted_wrt (<) (map fst (timers w))" using t by (simp add: tidy_def base_def)
  have dis: "distinct (map fst (timers w))" by (rule handles_distinct[OF t])
  have le: "due tm \<le> D" using earliest_least[OF srt ea] E(1) by (fastforce simp: D_def)
  have hne: "hE \<noteq> h"
  proof
    assume "hE = h"
    then have "(hE, tE) = (h, tm)" using handle_unique[OF srt mem E(1)] by simp
    then show False using ne E(2) by simp
  qed
  define now where "now = max (clock w) (due tm)"
  have nge: "due tm \<le> now" by (simp add: now_def)
  have pos: "0 < wt D (h, tm)" using wt_pos[of "(h, tm)" D] le ne by simp
  have fsum: "sum_list (map (wt D) (filter (\<lambda>e. fst e \<noteq> h) (timers w))) + wt D (h, tm) = load D w"
    unfolding load_def by (rule sum_filter_handle[OF dis mem])
  have Ef: "(hE, tE) \<in> set (filter (\<lambda>e. fst e \<noteq> h) (timers w))" using E(1) hne by simp
  show ?thesis
  proof (cases "cb tm")
    case (ExpiryCb wh el)
    then show ?thesis using ne by simp
  next
    case (WarnCb el)
    have pn: "period tm = None"
    proof (rule ccontr)
      assume "period tm \<noteq> None"
      then have "is_flicker (cb tm)" using t mem by (auto simp: tidy_def base_def)
      then show False using WarnCb by simp
    qed
    define I where "I = (nextHandle w, Timer (now + 250) (Some 250) (FlickerCb el))"
    have st: "step Fire w = w\<lparr>clock := now, timers := filter (\<lambda>e. fst e \<noteq> h) (timers w) @ [I],
        nextHandle := Suc (nextHandle w), flickered := h # flickered w, flicker := Some (nextHandle w)\<rparr>"
      using ea pn WarnCb by (simp add: fire_def Let_def now_def I_def setInterval_def)
    have "wt D I < wt D (h, tm)" unfolding I_def using wt_warn[OF _ WarnCb nge] le by simp
    then have "load D (step Fire w) < load D w"
      unfolding st using fsum by (simp add: load_def)
    moreover have "(hE, tE) \<in> set (timers (step Fire w))" "idx (step Fire w) = idx w"
      "seq (step Fire w) = seq w"
      unfolding st using Ef by simp_all
    ultimately show ?thesis by (simp only: D_def simp_thms)
  next
    case (FlickerCb el)
    have aft: "timers (settle (run_cb h (FlickerCb el) v)) = timers v"
      "idx (settle (run_cb h (FlickerCb el) v)) = idx v"
      "seq (settle (run_cb h (FlickerCb el) v)) = seq v" for v
      by (cases el; simp)+
    show ?thesis
    proof (cases "period tm")
      case None
      have st: "step Fire w = settle (run_cb h (FlickerCb el)
          (w\<lparr>clock := now, timers := filter (\<lambda>e. fst e \<noteq> h) (timers w)\<rparr>))"
        using ea None FlickerCb by (simp add: fire_def Let_def now_def)
      have "load D (step Fire w) < load D w"
        unfolding st using fsum pos by (simp add: load_def aft del: run_cb.simps)
      moreover have "(hE, tE) \<in> set (timers (step Fire w))" "idx (step Fire w) = idx w"
        "seq (step Fire w) = seq w"
        unfolding st using Ef by (simp_all add: aft del: run_cb.simps)
      ultimately show ?thesis by (simp only: D_def simp_thms)
    next
      case (Some q)
      have q: "q = 250" using p mem Some by (fastforce simp: periods_def)
      define t' where "t' = Timer (now + 250) (Some 250) (cb tm)"
      have "step Fire w = settle (run_cb h (cb tm)
          (w\<lparr>clock := now, timers := retime h t' (timers w)\<rparr>))"
        using ea Some q by (simp add: fire_def Let_def now_def retime_def t'_def del: run_cb.simps)
      then have st: "step Fire w = settle (run_cb h (FlickerCb el)
          (w\<lparr>clock := now, timers := retime h t' (timers w)\<rparr>))"
        unfolding FlickerCb .
      have "sum_list (map (wt D) (retime h t' (timers w))) + wt D (h, tm) = load D w + wt D (h, t')"
        unfolding load_def by (rule sum_retime[OF dis mem])
      moreover have "wt D (h, t') < wt D (h, tm)"
        unfolding t'_def using wt_tick[OF _ FlickerCb nge] le by simp
      ultimately have "load D (step Fire w) < load D w"
        unfolding st by (simp add: load_def aft del: run_cb.simps)
      moreover have "(hE, tE) \<in> set (retime h t' (timers w))"
        using retime_keeps[OF E(1)] hne by simp
      then have "(hE, tE) \<in> set (timers (step Fire w))" "idx (step Fire w) = idx w"
        "seq (step Fire w) = seq w"
        unfolding st by (simp_all add: aft del: run_cb.simps)
      ultimately show ?thesis by (simp only: D_def simp_thms)
    qed
  qed
qed

lemma nextLetter_alive:
  assumes "length (seq w) = MAX_ADVANCE"
  shows "alive (after (nextLetter w))"
proof (cases "MAX_ADVANCE \<le> idx w + 1")
  case True
  then show ?thesis using assms
    by (simp add: alive_def nextLetter_def Let_def endGame_after)
next
  case False
  then have "idx w + 1 < length (seq w)" using assms by simp
  then show ?thesis using assms
    by (simp add: alive_def nextLetter_def Let_def shiftLetters_def startTimer_def setTimeout_def)
qed

lemma alive_settle: "alive (settle out) = alive (after out)"
  by (cases out) (auto simp: alive_def)

lemma expiry_fire_alive:
  assumes t: "tidy w" and i: "inv w" and a: "alive w"
    and ea: "earliest (timers w) = Some (h, tm)" and c: "is_expiry (cb tm)"
  shows "idx (step Fire w) = idx w + 1 \<and> alive (step Fire w)"
proof -
  obtain wh el where cb: "cb tm = ExpiryCb wh el" using c by (cases "cb tm") simp_all
  have mem: "(h, tm) \<in> set (timers w)" using ea by (rule earliest_mem)
  have eff: "idx (step Fire w) = idx w + 1 \<and> el = Some (letters w ! idx w)"
    using expiry_fire_effect[OF t i ea cb] by simp
  have "expiry_ok w (h, tm)" using i mem by (auto simp: inv_def)
  then have p: "period tm = None" using cb by (simp add: expiry_ok_def)
  define w1 where "w1 = w\<lparr>clock := max (clock w) (due tm), timers := filter (\<lambda>e. fst e \<noteq> h) (timers w)\<rparr>"
  define w2 where "w2 = (if wh \<in> set (flickered w1) then clearTimer (flicker w1) w1 else w1)"
  define w3 where "w3 = w2\<lparr>trace := trace w2 @ [Fall (letters w ! idx w)]\<rparr>"
  have fire: "fire w = nextLetter w3"
    using ea p cb eff by (simp add: fire_def Let_def w1_def w2_def w3_def)
  have "seq w3 = seq w" by (simp add: w3_def w2_def w1_def)
  then have "alive (after (nextLetter w3))" using a by (intro nextLetter_alive) (simp add: alive_def)
  then show ?thesis using eff by (simp add: fire alive_settle)
qed

lemma one_letter:
  assumes "tidy w" "inv w" "periods w" "alive w" "idx w < MAX_ADVANCE"
  shows "\<exists>n. idx (run (replicate n Fire) w) = idx w + 1 \<and> tidy (run (replicate n Fire) w) \<and>
             inv (run (replicate n Fire) w) \<and> periods (run (replicate n Fire) w) \<and>
             alive (run (replicate n Fire) w)"
proof -
  obtain eE where eE: "eE \<in> set (timers w)" "is_expiry (cb (snd eE))"
    using assms(4,5) by (auto simp: alive_def)
  obtain hE tE where eq: "eE = (hE, tE)" by (cases eE)
  have E: "(hE, tE) \<in> set (timers w)" "is_expiry (cb tE)"
    using eE unfolding eq by simp_all
  have "\<And>w. tidy w \<Longrightarrow> inv w \<Longrightarrow> periods w \<Longrightarrow> alive w \<Longrightarrow> idx w < MAX_ADVANCE \<Longrightarrow>
          (hE, tE) \<in> set (timers w) \<Longrightarrow> load (due tE) w = k \<Longrightarrow>
          \<exists>n. idx (run (replicate n Fire) w) = idx w + 1 \<and> tidy (run (replicate n Fire) w) \<and>
             inv (run (replicate n Fire) w) \<and> periods (run (replicate n Fire) w) \<and>
             alive (run (replicate n Fire) w)" for k
  proof (induction k rule: less_induct)
    case (less k)
    obtain x where x: "earliest (timers w) = Some x"
      using less.prems(6) by (cases "earliest (timers w)") (auto simp: earliest_None)
    obtain h tm where ea: "earliest (timers w) = Some (h, tm)" using x by (cases x) simp
    have r1: "run (replicate (Suc n) Fire) w = run (replicate n Fire) (step Fire w)" for n
      by (simp add: run_def)
    have inv': "tidy (step Fire w)" "inv (step Fire w)" "periods (step Fire w)"
      by (rule step_tidy[OF less.prems(1,2)], rule step_inv[OF less.prems(2)],
          rule periods_step[OF less.prems(3)])
    show ?case
    proof (cases "is_expiry (cb tm)")
      case True
      have "idx (step Fire w) = idx w + 1 \<and> alive (step Fire w)"
        by (rule expiry_fire_alive[OF less.prems(1,2,4) ea True])
      then have "idx (run (replicate 1 Fire) w) = idx w + 1 \<and> tidy (run (replicate 1 Fire) w) \<and>
             inv (run (replicate 1 Fire) w) \<and> periods (run (replicate 1 Fire) w) \<and>
             alive (run (replicate 1 Fire) w)"
        using inv' by (simp add: run_def)
      then show ?thesis by blast
    next
      case False
      have o: "load (due tE) (step Fire w) < load (due tE) w \<and> (hE, tE) \<in> set (timers (step Fire w)) \<and>
         idx (step Fire w) = idx w \<and> seq (step Fire w) = seq w"
        by (rule other_fire[OF less.prems(1,2,3) ea False less.prems(6) E(2)])
      then have al: "alive (step Fire w)"
        using less.prems(4) E(2) unfolding alive_def by force
      obtain n where n: "idx (run (replicate n Fire) (step Fire w)) = idx (step Fire w) + 1 \<and>
             tidy (run (replicate n Fire) (step Fire w)) \<and>
             inv (run (replicate n Fire) (step Fire w)) \<and> periods (run (replicate n Fire) (step Fire w)) \<and>
             alive (run (replicate n Fire) (step Fire w))"
        using less.IH[of "load (due tE) (step Fire w)" "step Fire w"] o inv' al less.prems(5,7)
        by auto
      then have "idx (run (replicate (Suc n) Fire) w) = idx w + 1 \<and> tidy (run (replicate (Suc n) Fire) w) \<and>
             inv (run (replicate (Suc n) Fire) w) \<and> periods (run (replicate (Suc n) Fire) w) \<and>
             alive (run (replicate (Suc n) Fire) w)"
        using o unfolding r1 by simp
      then show ?thesis by blast
    qed
  qed
  then show ?thesis using assms E(1) by blast
qed

lemma session_ends:
  assumes "tidy w" "inv w" "periods w" "alive w"
  shows "\<exists>n. MAX_ADVANCE \<le> idx (run (replicate n Fire) w)"
proof -
  have "\<And>w. tidy w \<Longrightarrow> inv w \<Longrightarrow> periods w \<Longrightarrow> alive w \<Longrightarrow> MAX_ADVANCE - idx w = k \<Longrightarrow>
          \<exists>n. MAX_ADVANCE \<le> idx (run (replicate n Fire) w)" for k
  proof (induction k)
    case 0
    then have "MAX_ADVANCE \<le> idx (run (replicate 0 Fire) w)" by (simp add: run_def)
    then show ?case by blast
  next
    case (Suc k)
    then have lt: "idx w < MAX_ADVANCE" by simp
    obtain n where n: "idx (run (replicate n Fire) w) = idx w + 1" "tidy (run (replicate n Fire) w)"
        "inv (run (replicate n Fire) w)" "periods (run (replicate n Fire) w)"
        "alive (run (replicate n Fire) w)"
      using one_letter[OF Suc.prems(1,2,3,4) lt] by blast
    have "MAX_ADVANCE - idx (run (replicate n Fire) w) = k" using n(1) Suc.prems(5) by simp
    then obtain n' where "MAX_ADVANCE \<le> idx (run (replicate n' Fire) (run (replicate n Fire) w))"
      using Suc.IH[OF n(2,3,4,5)] by blast
    then have "MAX_ADVANCE \<le> idx (run (replicate (n + n') Fire) w)"
      by (simp add: run_def replicate_add)
    then show ?case by blast
  qed
  then show ?thesis using assms by blast
qed

lemma start_alive: "alive (start rnd w)"
  by (simp add: alive_def start_def render_def newSequence_def startTimer_def setTimeout_def
      Let_def LETTER_COUNT_def MAX_ADVANCE_def)

lemma any_session_ends:
  "\<exists>n. MAX_ADVANCE \<le> idx (run (replicate n Fire)
          (start rnd (step ScoreReset (run pre (UyghurTypingGame c m ls)))))"
proof -
  let ?w0 = "run pre (UyghurTypingGame c m ls)"
  have ti: "tidy ?w0 \<and> inv ?w0" by (rule run_tidy_inv[OF tidy_new inv_new])
  have p: "periods ?w0" by (rule periods_run[OF periods_new])
  have t0: "tidy ?w0" and i0: "inv ?w0" using ti by simp_all
  have t1: "tidy (start rnd (step ScoreReset ?w0))"
    by (rule start_tidy[OF step_tidy[OF t0 i0] step_inv[OF i0]])
  have i1: "inv (start rnd (step ScoreReset ?w0))"
    by (rule start_inv[OF step_inv[OF i0]])
  have p1: "periods (start rnd (step ScoreReset ?w0))"
    by (rule periods_start[OF periods_step[OF p]])
  show ?thesis by (rule session_ends[OF t1 i1 p1 start_alive])
qed

section \<open>A session of matches\<close>

lemma run_append: "run (xs @ ys) w = run ys (run xs w)"
  by (simp add: run_def)

lemma run_Cons: "run (a # acts) w = run acts (step a w)"
  by (simp add: run_def)

lemma nextLetter_clock: "clock (settle (nextLetter w)) = clock w"
  by (simp add: nextLetter_def endGame_def shiftLetters_def Let_def split: option.splits)

lemma run_cb_clock: "clock (settle (run_cb h f w)) = clock w"
proof (cases f)
  case (WarnCb el)
  then show ?thesis by (simp add: setInterval_def Let_def)
next
  case (FlickerCb el)
  then show ?thesis by (cases el) simp_all
next
  case (ExpiryCb wh el)
  define w1 where "w1 = (if wh \<in> set (flickered w) then clearTimer (flicker w) w else w)"
  have c1: "clock w1 = clock w" by (simp add: w1_def)
  show ?thesis
  proof (cases el)
    case None
    then show ?thesis unfolding ExpiryCb by (simp add: Let_def)
  next
    case (Some e)
    have "clock (settle (nextLetter (w1\<lparr>trace := trace w1 @ [Fall e]\<rparr>))) = clock w"
      by (simp add: nextLetter_clock c1)
    then show ?thesis unfolding ExpiryCb Some by (simp add: w1_def Let_def)
  qed
qed

lemma fire_clock:
  assumes "earliest (timers w) = Some (h, tm)"
  shows "clock (step Fire w) = max (clock w) (due tm)"
proof -
  have "clock (settle (run_cb h (cb tm) (w\<lparr>clock := c, timers := ts\<rparr>))) = c" for c ts
    by (simp add: run_cb_clock del: run_cb.simps)
  then show ?thesis using assms by (simp add: fire_def Let_def del: run_cb.simps)
qed

lemma keyHandler_clock: "clock (settle (keyHandler key w)) = clock w"
proof -
  let ?w2 = "clearTimer (flicker (clearTimer (letterT w) w)) (clearTimer (letterT w) w)"
  have "clock (settle (nextLetter (awardPoints (?w2\<lparr>trace := trace ?w2 @ [Burst e]\<rparr>)))) = clock w" for e
    by (simp add: nextLetter_clock awardPoints_def Let_def split: option.splits)
  then show ?thesis by (simp add: keyHandler_def handleCorrectKey_def Let_def)
qed

lemma wait_clock: "is_wait symb a \<Longrightarrow> clock w \<le> clock (step a w)"
proof (cases a)
  case Fire
  show ?thesis
  proof (cases "earliest (timers w)")
    case None
    then show ?thesis using Fire by (simp add: fire_def)
  next
    case (Some x)
    obtain h tm where "x = (h, tm)" by (cases x)
    then show ?thesis using Fire Some fire_clock[of w h tm] by simp
  qed
next
  case (KeyDown key)
  then show ?thesis by (simp add: keyHandler_clock)
qed simp_all

lemma waits_clock: "\<forall>a\<in>set wait. is_wait symb a \<Longrightarrow> clock w \<le> clock (run wait w)"
proof (induction wait arbitrary: w)
  case Nil
  then show ?case by (simp add: run_def)
next
  case (Cons a wait)
  have "clock w \<le> clock (step a w)" using Cons.prems wait_clock[of symb a w] by simp
  moreover have "clock (step a w) \<le> clock (run wait (step a w))" using Cons by simp
  ultimately show ?case by (simp add: run_Cons)
qed

lemma fire_other:
  assumes ea: "earliest (timers w) = Some (h, tm)" and ne: "\<not> is_expiry (cb tm)"
  shows "seq (step Fire w) = seq w \<and> idx (step Fire w) = idx w \<and>
         letters (step Fire w) = letters w \<and> listening (step Fire w) = listening w \<and>
         (\<forall>e\<in>set (timers (step Fire w)). is_expiry (cb (snd e)) \<longrightarrow> e \<in> set (timers w))"
proof (cases "cb tm")
  case (ExpiryCb wh el)
  then show ?thesis using ne by simp
next
  case (WarnCb el)
  then show ?thesis using ea
    by (auto simp: fire_def Let_def setInterval_def split: option.splits)
next
  case (FlickerCb el)
  then show ?thesis using ea
    by (cases el) (auto simp: fire_def Let_def split: option.splits)
qed

lemma wait_step:
  assumes "is_wait symb a" "deadline D w" "clock (step a w) < D" "seq w ! idx w = symb"
  shows "seq (step a w) = seq w \<and> idx (step a w) = idx w \<and>
         letters (step a w) = letters w \<and> listening (step a w) = listening w \<and>
         deadline D (step a w) \<and> quiet w (step a w)"
proof (cases a)
  case (Elapse d)
  then show ?thesis using assms(2) by (simp add: deadline_def quiet_def)
next
  case (KeyDown key)
  then have "key \<noteq> seq w ! idx w" using assms(1,4) by simp
  then have "step a w = w" using KeyDown by (simp add: keyHandler_def)
  then show ?thesis using assms(2) by (simp add: quiet_refl)
next
  case Fire
  have q: "quiet w (step Fire w)" using fire_quiet[of w] by simp
  show ?thesis
  proof (cases "earliest (timers w)")
    case None
    then show ?thesis using Fire assms(2) by (simp add: fire_def quiet_refl)
  next
    case (Some x)
    obtain h tm where x: "x = (h, tm)" by (cases x)
    have ea: "earliest (timers w) = Some (h, tm)" using Some x by simp
    have mem: "(h, tm) \<in> set (timers w)" using ea by (rule earliest_mem)
    have ne: "\<not> is_expiry (cb tm)"
    proof
      assume "is_expiry (cb tm)"
      then have "D \<le> due tm" using assms(2) mem by (auto simp: deadline_def)
      moreover have "due tm \<le> clock (step Fire w)" using fire_clock[OF ea] by simp
      ultimately show False using assms(3) Fire by simp
    qed
    have o: "seq (step Fire w) = seq w \<and> idx (step Fire w) = idx w \<and>
         letters (step Fire w) = letters w \<and> listening (step Fire w) = listening w \<and>
         (\<forall>e\<in>set (timers (step Fire w)). is_expiry (cb (snd e)) \<longrightarrow> e \<in> set (timers w))"
      by (rule fire_other[OF ea ne])
    then have "deadline D (step Fire w)" using assms(2) unfolding deadline_def by blast
    then show ?thesis using o q Fire by simp
  qed
qed (use assms(1) in simp_all)

lemma waits_run:
  assumes "\<forall>a\<in>set wait. is_wait symb a" "deadline D w" "clock (run wait w) < D" "seq w ! idx w = symb"
  shows "seq (run wait w) = seq w \<and> idx (run wait w) = idx w \<and>
         letters (run wait w) = letters w \<and> listening (run wait w) = listening w \<and>
         deadline D (run wait w) \<and> quiet w (run wait w)"
  using assms
proof (induction wait arbitrary: w)
  case Nil
  then show ?case by (simp add: run_def quiet_refl)
next
  case (Cons a wait)
  have ta: "is_wait symb a" and tw: "\<forall>a\<in>set wait. is_wait symb a" using Cons.prems(1) by simp_all
  have "clock (step a w) \<le> clock (run wait (step a w))" by (rule waits_clock[OF tw])
  then have c: "clock (step a w) < D" using Cons.prems(3) by (simp add: run_Cons)
  have s: "seq (step a w) = seq w \<and> idx (step a w) = idx w \<and>
         letters (step a w) = letters w \<and> listening (step a w) = listening w \<and>
         deadline D (step a w) \<and> quiet w (step a w)"
    by (rule wait_step[OF ta Cons.prems(2) c Cons.prems(4)])
  have "seq (run wait (step a w)) = seq (step a w) \<and> idx (run wait (step a w)) = idx (step a w) \<and>
         letters (run wait (step a w)) = letters (step a w) \<and>
         listening (run wait (step a w)) = listening (step a w) \<and>
         deadline D (run wait (step a w)) \<and> quiet (step a w) (run wait (step a w))"
    using Cons.IH[OF tw, of "step a w"] s Cons.prems(3,4) by (simp add: run_Cons)
  then show ?case using s quiet_trans by (auto simp: run_Cons)
qed

lemma wait_play: "is_wait symb a \<Longrightarrow> is_play a"
  by (cases a) simp_all

lemma correct_key:
  assumes i: "inv w" and l: "listening w" and ix: "idx w < length (seq w)"
    and le: "length (letters w) = length (seq w)" and sq: "length (seq w) = MAX_ADVANCE"
  shows "idx (step (KeyDown (seq w ! idx w)) w) = idx w + 1 \<and>
         seq (step (KeyDown (seq w ! idx w)) w) = seq w \<and>
         letters (step (KeyDown (seq w ! idx w)) w) = letters w \<and>
         (idx w + 1 < MAX_ADVANCE \<longrightarrow> listening (step (KeyDown (seq w ! idx w)) w)) \<and>
         deadline (clock (step (KeyDown (seq w ! idx w)) w) + FALL_DELAY) (step (KeyDown (seq w ! idx w)) w) \<and>
         (\<exists>es. trace (step (KeyDown (seq w ! idx w)) w) = trace w @ Burst (letters w ! idx w) # es \<and>
               bursts es = 0)"
proof -
  define w2 where "w2 = clearTimer (flicker (clearTimer (letterT w) w)) (clearTimer (letterT w) w)"
  define w3 where "w3 = awardPoints (w2\<lparr>trace := trace w2 @ [Burst (letters w ! idx w)]\<rparr>)"
  have ne2: "no_expiry w2" unfolding w2_def
    by (intro no_expiry_clear clear_letterT_no_expiry inv_expiry_handle i)
  have ne3: "no_expiry w3" using ne2 by (simp add: w3_def no_expiry_def)
  have f3: "idx w3 = idx w" "seq w3 = seq w" "letters w3 = letters w" "listening w3 = listening w"
    "clock w3 = clock w" "trace w3 = trace w @ [Burst (letters w ! idx w)]"
    by (simp_all add: w3_def w2_def awardPoints_def Let_def split: option.splits)
  have st: "step (KeyDown (seq w ! idx w)) w = settle (nextLetter w3)"
    using l ix le by (simp add: keyHandler_def handleCorrectKey_def Let_def w3_def w2_def)
  show ?thesis
  proof (cases "MAX_ADVANCE \<le> idx w + 1")
    case True
    have "no_expiry (settle (nextLetter w3))"
      using ne3 True by (simp add: nextLetter_def endGame_def Let_def f3 no_expiry_def split: option.splits)
    then have "deadline D (settle (nextLetter w3))" for D by (simp add: deadline_def no_expiry_def)
    then show ?thesis unfolding st using True
      by (simp add: nextLetter_def endGame_def Let_def f3 split: option.splits)
  next
    case False
    then have lt: "idx w + 1 < length (seq w)" using sq by simp
    have "deadline (clock w + FALL_DELAY) (settle (nextLetter w3))"
      using ne3 False lt
      by (auto simp: nextLetter_def Let_def f3 deadline_def no_expiry_def shiftLetters_def
          startTimer_def setTimeout_def)
    then show ?thesis unfolding st using False l
      by (simp add: nextLetter_def Let_def f3 shiftLetters_def nextLetter_clock)
  qed
qed

lemma start_matched:
  assumes "inv w"
  shows "matched (length (trace w)) 0 (start rnd w)"
proof -
  have i: "inv (start rnd w)" by (rule start_inv[OF assms])
  let ?w1 = "newSequence rnd ((resetState w)\<lparr>listening := True\<rparr>)"
  have "no_expiry (resetState w)" by (rule resetState_no_expiry[OF assms])
  then have "no_expiry ?w1" by (simp add: no_expiry_def newSequence_def)
  then have "no_expiry (clearRender ?w1)"
    by (intro clearRender_no_expiry) (simp add: no_expiry_def)
  then have d: "deadline (clock (start rnd w) + FALL_DELAY) (start rnd w)"
    by (auto simp: start_def render_def Let_def deadline_def no_expiry_def startTimer_def setTimeout_def)
  show ?thesis using i d
    by (simp add: matched_def start_def render_def Let_def newSequence_def LETTER_COUNT_def
        MAX_ADVANCE_def)
qed


lemma press_matched:
  assumes m: "matched k i w" and t: "in_time w wait" and lt: "i < MAX_ADVANCE"
  shows "matched k (Suc i) (run (press w wait) w) \<and> (\<forall>a\<in>set (press w wait). is_play a)"
proof -
  define w1 where "w1 = run wait w"
  have tk: "\<forall>a\<in>set wait. is_wait (seq w ! idx w) a" and ck: "clock w1 < clock w + FALL_DELAY"
    using t by (simp_all add: in_time_def w1_def)
  have pas: "\<forall>a\<in>set wait. is_play a" using tk wait_play by blast
  have mi: "inv w" "length (seq w) = MAX_ADVANCE" "length (letters w) = MAX_ADVANCE" "idx w = i"
    "listening w" "deadline (clock w + FALL_DELAY) w" "k \<le> length (trace w)"
    "bursts (drop k (trace w)) = i"
    using m lt by (simp_all add: matched_def)
  have k1: "seq w1 = seq w \<and> idx w1 = idx w \<and> letters w1 = letters w \<and> listening w1 = listening w \<and>
            deadline (clock w + FALL_DELAY) w1 \<and> quiet w w1"
    unfolding w1_def by (rule waits_run[OF tk mi(6) ck[unfolded w1_def] refl])
  have i1: "inv w1" unfolding w1_def by (rule run_inv[OF mi(1)])
  obtain es where es: "trace w1 = trace w @ es" "bursts es = 0"
    using k1 by (auto simp: quiet_def)
  have ix: "idx w < length (seq w)" using mi lt by simp
  have pr: "press w wait = wait @ [KeyDown (seq w1 ! idx w1)]"
    using ix k1 by (simp add: press_def)
  define w' where "w' = step (KeyDown (seq w1 ! idx w1)) w1"
  have rw: "run (press w wait) w = w'"
    by (simp add: pr run_append w1_def w'_def run_def)
  have ck: "idx w' = idx w1 + 1 \<and> seq w' = seq w1 \<and> letters w' = letters w1 \<and>
         (idx w1 + 1 < MAX_ADVANCE \<longrightarrow> listening w') \<and>
         deadline (clock w' + FALL_DELAY) w' \<and>
         (\<exists>es. trace w' = trace w1 @ Burst (letters w1 ! idx w1) # es \<and> bursts es = 0)"
    unfolding w'_def
    by (rule correct_key[OF i1]) (use k1 mi ix in simp_all)
  then obtain es' where es': "trace w' = trace w1 @ Burst (letters w1 ! idx w1) # es'" "bursts es' = 0"
    by blast
  have i': "inv w'" unfolding w'_def by (rule step_inv[OF i1])
  have b: "bursts (drop k (trace w')) = Suc i" "k \<le> length (trace w')"
    using mi(7,8) es es' by simp_all
  have "matched k (Suc i) w'"
    unfolding matched_def using i' ck k1 mi b by simp
  moreover have "\<forall>a\<in>set (press w wait). is_play a"
    using pas by (auto simp: pr)
  ultimately show ?thesis by (simp add: rw)
qed

lemma player_matched:
  assumes "matched k i w" "timely waits w" "i + length waits \<le> MAX_ADVANCE"
  shows "matched k (i + length waits) (run (player waits w) w) \<and>
         (\<forall>a\<in>set (player waits w). is_play a)"
  using assms
proof (induction waits arbitrary: i w)
  case Nil
  then show ?case by (simp add: run_def)
next
  case (Cons wait waits)
  have lt: "i < MAX_ADVANCE" using Cons.prems(3) by simp
  have t: "in_time w wait" and ts: "timely waits (run (press w wait) w)"
    using Cons.prems(2) by simp_all
  have p: "matched k (Suc i) (run (press w wait) w) \<and> (\<forall>a\<in>set (press w wait). is_play a)"
    by (rule press_matched[OF Cons.prems(1) t lt])
  have "matched k (Suc i + length waits) (run (player waits (run (press w wait) w)) (run (press w wait) w)) \<and>
        (\<forall>a\<in>set (player waits (run (press w wait) w)). is_play a)"
    using Cons.IH[OF _ ts, of "Suc i"] p Cons.prems(3) by simp
  then show ?case using p by (auto simp: run_append)
qed

lemma timely_elapse:
  assumes "matched k i w" "\<forall>d\<in>set ds. d < FALL_DELAY" "i + length ds \<le> MAX_ADVANCE"
  shows "timely (map (\<lambda>d. [Elapse d]) ds) w"
  using assms
proof (induction ds arbitrary: i w)
  case Nil
  then show ?case by simp
next
  case (Cons d ds)
  have lt: "i < MAX_ADVANCE" using Cons.prems(3) by simp
  have "idx w < length (seq w)" using Cons.prems(1) lt by (simp add: matched_def)
  then have t: "in_time w [Elapse d]" using Cons.prems(2) by (simp add: in_time_def run_def)
  have mm: "matched k (Suc i) (run (press w [Elapse d]) w)"
    using press_matched[OF Cons.prems(1) t lt] by simp
  have ds: "\<forall>d\<in>set ds. d < FALL_DELAY" using Cons.prems(2) by simp
  have "Suc i + length ds \<le> MAX_ADVANCE" using Cons.prems(3) by simp
  then have "timely (map (\<lambda>d. [Elapse d]) ds) (run (press w [Elapse d]) w)"
    by (rule Cons.IH[OF mm ds])
  then show ?case using t by simp
qed

lemma keyHandler_grows: "\<exists>es. trace (settle (keyHandler key w)) = trace w @ es"
proof -
  let ?w2 = "clearTimer (flicker (clearTimer (letterT w) w)) (clearTimer (letterT w) w)"
  have "\<exists>es. trace (settle (nextLetter (awardPoints (?w2\<lparr>trace := trace ?w2 @ [Burst e]\<rparr>)))) = trace w @ es" for e
    using nextLetter_quiet[of "awardPoints (?w2\<lparr>trace := trace ?w2 @ [Burst e]\<rparr>)"]
    by (auto simp: quiet_def)
  then show ?thesis
    by (simp add: keyHandler_def handleCorrectKey_def Let_def)
qed

lemma step_grows: "is_play a \<Longrightarrow> \<exists>es. trace (step a w) = trace w @ es"
proof (cases a)
  case Fire
  then show ?thesis using fire_quiet[of w] by (auto simp: quiet_def)
next
  case (KeyDown key)
  then show ?thesis using keyHandler_grows[of key w] by simp
next
  case ScoreSave
  then show ?thesis by (simp split: option.splits)
qed simp_all

lemma run_grows: "\<forall>a\<in>set acts. is_play a \<Longrightarrow> \<exists>es. trace (run acts w) = trace w @ es"
proof (induction acts arbitrary: w)
  case Nil
  then show ?case by (simp add: run_def)
next
  case (Cons a acts)
  obtain es where "trace (step a w) = trace w @ es" using step_grows[of a w] Cons.prems by auto
  moreover obtain es' where "trace (run acts (step a w)) = trace (step a w) @ es'"
    using Cons by fastforce
  ultimately show ?case by (simp add: run_Cons)
qed

section \<open>Evaluation of concrete runs\<close>

lemmas game_defs = run_def UyghurTypingGame_def resetState_def clearTimer_def start_def render_def clearRender_def
    newSequence_def startTimer_def setTimeout_def setInterval_def keyHandler_def handleCorrectKey_def nextLetter_def
    awardPoints_def shiftLetters_def fire_def endGame_def allLetters_def LETTER_COUNT_def MAX_ADVANCE_def FLICKER_DELAY_def FALL_DELAY_def Let_def
    upt_rec getScore_def increment_def

section \<open>The claims about the game\<close>

text \<open>
  Claim C7. Whatever happens to a game after its construction, the cursor stays between 0
  and the advance limit. It is 0 after construction, \<open>start\<close> and \<open>resetState\<close>, and an
  advance (\<open>nextLetter\<close>) adds exactly 1, whether it returns or throws.
\<close>

theorem cursor_bounds:
  "0 \<le> idx (run acts (UyghurTypingGame c m ls)) \<and>
   idx (run acts (UyghurTypingGame c m ls)) \<le> MAX_ADVANCE \<and>
   idx (UyghurTypingGame c m ls) = 0 \<and> idx (start rnd w) = 0 \<and> idx (resetState w) = 0 \<and>
   idx (after (nextLetter w)) = idx w + 1"
proof -
  have "inv (run acts (UyghurTypingGame c m ls))" by (rule run_inv[OF inv_new])
  then have "idx (run acts (UyghurTypingGame c m ls)) \<le> MAX_ADVANCE" by (simp add: inv_def)
  moreover have "idx (after (nextLetter w)) = idx w + 1"
    by (simp add: nextLetter_def Let_def endGame_after shiftLetters_def)
  moreover have "idx (start rnd w) = 0"
    by (simp add: start_def render_def Let_def newSequence_def)
  moreover have "idx (UyghurTypingGame c m ls) = 0" by (simp add: UyghurTypingGame_def)
  ultimately show ?thesis by simp
qed

lemma keyHandler_ended:
  assumes "inv w" "MAX_ADVANCE \<le> idx w"
  shows "keyHandler key w = Inr w"
  using assms by (simp add: keyHandler_def inv_def)

text \<open>
  Claim C5. \<open>keyHandler\<close> returns the state it was given, trace included, when the key is
  not the symbol at the cursor (or the cursor is outside the sequence), when the game is
  idle (as constructed, or after \<open>resetState\<close>), and when a game has ended, that is,
  its cursor has reached the advance limit; so \<open>onGameOver\<close> is not called again. The
  same holds for a keydown dispatched through the document.
\<close>

theorem ignored_input:
  "((idx w < length (seq w) \<longrightarrow> key \<noteq> seq w ! idx w) \<longrightarrow>
      keyHandler key w = Inr w \<and> step (KeyDown key) w = w) \<and>
   keyHandler key (resetState w) = Inr (resetState w) \<and>
   step (KeyDown key) (resetState w) = resetState w \<and>
   keyHandler key (UyghurTypingGame c m ls) = Inr (UyghurTypingGame c m ls) \<and>
   (MAX_ADVANCE \<le> idx (run acts (UyghurTypingGame c m ls)) \<longrightarrow>
      keyHandler key (run acts (UyghurTypingGame c m ls)) = Inr (run acts (UyghurTypingGame c m ls)) \<and>
      step (KeyDown key) (run acts (UyghurTypingGame c m ls)) = run acts (UyghurTypingGame c m ls))"
proof -
  have "inv (run acts (UyghurTypingGame c m ls))" by (rule run_inv[OF inv_new])
  then have "MAX_ADVANCE \<le> idx (run acts (UyghurTypingGame c m ls)) \<longrightarrow>
      keyHandler key (run acts (UyghurTypingGame c m ls)) = Inr (run acts (UyghurTypingGame c m ls))"
    by (simp add: keyHandler_ended)
  moreover have "keyHandler key (UyghurTypingGame c m ls) = Inr (UyghurTypingGame c m ls)"
    by (simp add: keyHandler_def UyghurTypingGame_def)
  moreover have "keyHandler key (resetState w) = Inr (resetState w)"
    by (simp add: keyHandler_def)
  moreover have "(idx w < length (seq w) \<longrightarrow> key \<noteq> seq w ! idx w) \<longrightarrow> keyHandler key w = Inr w"
    by (auto simp: keyHandler_def)
  ultimately show ?thesis by simp
qed

text \<open>C5 on a wrong key in a running game and on a key after the seventh match.\<close>

theorem ignored_input_witness:
  "keyHandler [65] (start (\<lambda>i. i) (UyghurTypingGame True None Map.empty)) =
     Inr (start (\<lambda>i. i) (UyghurTypingGame True None Map.empty)) \<and>
   keyHandler [1583]
     (run [Start (\<lambda>i. i), KeyDown [1576], KeyDown [1662], KeyDown [1578], KeyDown [1580],
           KeyDown [1670], KeyDown [1582], KeyDown [1583]]
        (UyghurTypingGame True (Some (new_ScoreManager None Map.empty)) Map.empty)) =
     Inr (run [Start (\<lambda>i. i), KeyDown [1576], KeyDown [1662], KeyDown [1578], KeyDown [1580],
           KeyDown [1670], KeyDown [1582], KeyDown [1583]]
        (UyghurTypingGame True (Some (new_ScoreManager None Map.empty)) Map.empty))"
proof -
  define w where "w = start (\<lambda>i. i) (UyghurTypingGame True None Map.empty)"
  define acts where "acts = [Start (\<lambda>i. i), KeyDown [1576], KeyDown [1662], KeyDown [1578], KeyDown [1580],
           KeyDown [1670], KeyDown [1582], KeyDown [1583]]"
  define g where "g = UyghurTypingGame True (Some (new_ScoreManager None Map.empty)) Map.empty"
  have a: "idx w < length (seq w) \<longrightarrow> [65] \<noteq> seq w ! idx w"
    unfolding w_def by (simp add: game_defs)
  have b: "MAX_ADVANCE \<le> idx (run acts g)"
    unfolding acts_def g_def
    by (simp add: game_defs updateDisplay_def new_ScoreManager_def)
  have "keyHandler [65] w = Inr w"
    using ignored_input[of w "[65]"] a by blast
  moreover have "keyHandler [1583] (run acts g) = Inr (run acts g)"
    using ignored_input[of _ "[1583]" True "Some (new_ScoreManager None Map.empty)" Map.empty acts] b
    unfolding g_def by blast
  ultimately show ?thesis unfolding w_def acts_def g_def by simp
qed

text \<open>
  Claim C1 at a failing input. The first letter is matched 1000 ms after the start.
  \<open>handleCorrectKey\<close> clears the handle in \<open>letterT\<close>, which is the expiry timeout: the
  second assignment in \<open>startTimer\<close> has overwritten the handle of the warning timeout.
  The warning timeout of the consumed letter (handle 1) is still pending; it fires at
  7000 ms and its interval toggles the consumed letter 0.
\<close>

theorem warning_outlives_match:
  "let w = run [Start (\<lambda>i. i), Elapse 1000, KeyDown [1576]] (UyghurTypingGame True None Map.empty)
   in idx w = 1 \<and>
      timers w = [(1, Timer 7000 None (WarnCb (Some 0))),
                  (3, Timer 8000 None (WarnCb (Some 1))),
                  (4, Timer 11000 None (ExpiryCb 3 (Some 1)))] \<and>
      trace w = [Rendered [0, 1, 2, 3, 4, 5, 6], Burst 0, Shift [1, 2, 3, 4, 5, 6]] \<and>
      trace (run [Fire, Fire] w) =
        [Rendered [0, 1, 2, 3, 4, 5, 6], Burst 0, Shift [1, 2, 3, 4, 5, 6], Toggle 0]"
  by (simp add: game_defs)

text \<open>
  Claim C6 at a failing input. \<open>start\<close> is called again 1000 ms into a session, and in
  a second run \<open>resetState\<close> is. Both clear the expiry timeout only: the warning timeout
  of the first session (handle 1, letter 0) stays pending and later toggles letter 0,
  inside the new session, whose letters are 7 to 13, or in the idle game.
\<close>

theorem warning_outlives_restart:
  "let w = run [Start (\<lambda>i. i), Elapse 1000, Start (\<lambda>i. i)] (UyghurTypingGame True None Map.empty);
       v = run [Start (\<lambda>i. i), Elapse 1000, ResetState] (UyghurTypingGame True None Map.empty)
   in timers w = [(1, Timer 7000 None (WarnCb (Some 0))),
                  (3, Timer 8000 None (WarnCb (Some 7))),
                  (4, Timer 11000 None (ExpiryCb 3 (Some 7)))] \<and>
      trace (run [Fire, Fire] w) =
        [Rendered [0, 1, 2, 3, 4, 5, 6], Rendered [7, 8, 9, 10, 11, 12, 13], Toggle 0] \<and>
      timers v = [(1, Timer 7000 None (WarnCb (Some 0)))] \<and>
      trace (run [Fire, Fire] v) = [Rendered [0, 1, 2, 3, 4, 5, 6], Toggle 0]"
  by (simp add: game_defs)

text \<open>
  Claim C10 as stated fails: in a game constructed without a callback and without a
  score manager, seven matches end the session and nothing is thrown.
\<close>

theorem end_without_callback_is_silent:
  "trace (run [Start (\<lambda>i. i), KeyDown [1576], KeyDown [1662], KeyDown [1578], KeyDown [1580],
                KeyDown [1670], KeyDown [1582], KeyDown [1583]] (UyghurTypingGame False None Map.empty)) =
     [Rendered [0, 1, 2, 3, 4, 5, 6], Burst 0, Shift [1, 2, 3, 4, 5, 6], Burst 1, Shift [2, 3, 4, 5, 6],
      Burst 2, Shift [3, 4, 5, 6], Burst 3, Shift [4, 5, 6], Burst 4, Shift [5, 6], Burst 5, Shift [6],
      Burst 6]"
  by (simp add: game_defs)

text \<open>
  Claim C10, as the code has it. In a game without a score manager a correct key
  advances the cursor by one without an error, and nothing is scored, as long as the
  limit is not reached. At the limit the outcome depends on the callback: with a callback
  the argument \<open>this.scoreManager.getScore()\<close> throws a TypeError before the callback is
  entered (the cursor has advanced and no call of \<open>onGameOver\<close> is recorded); without a
  callback the optional call skips its argument, and the session ends without an error.
\<close>

theorem no_manager:
  assumes "scoreManager w = None" "idx w < length (seq w)" "idx w < length (letters w)"
  shows "(idx w + 1 < MAX_ADVANCE \<longrightarrow>
            (\<exists>w'. keyHandler (seq w ! idx w) w = Inr w' \<and> idx w' = idx w + 1 \<and>
                  scoreManager w' = None \<and> localStorage w' = localStorage w)) \<and>
         (MAX_ADVANCE \<le> idx w + 1 \<and> onGameOver w \<longrightarrow>
            (\<exists>w'. keyHandler (seq w ! idx w) w = Inl (TypeError, w') \<and> idx w' = idx w + 1 \<and>
                  gameovers (trace w') = gameovers (trace w))) \<and>
         (MAX_ADVANCE \<le> idx w + 1 \<and> \<not> onGameOver w \<longrightarrow>
            (\<exists>w'. keyHandler (seq w ! idx w) w = Inr w' \<and> idx w' = idx w + 1 \<and>
                  gameovers (trace w') = gameovers (trace w)))"
proof -
  have g: "gameovers (xs @ [Burst e]) = gameovers xs" for xs e
    by (induction xs rule: gameovers.induct) simp_all
  show ?thesis using assms
    by (simp add: keyHandler_def handleCorrectKey_def nextLetter_def awardPoints_def endGame_def
        shiftLetters_def clearTimer_upd Let_def g)
qed

text \<open>C10 on three games after \<open>start\<close>: the seventh match with a callback throws, the
  first match does not, and the seventh match without a callback does not.\<close>

theorem no_manager_witness:
  "isl (keyHandler [1583]
     (run [Start (\<lambda>i. i), KeyDown [1576], KeyDown [1662], KeyDown [1578], KeyDown [1580],
           KeyDown [1670], KeyDown [1582]] (UyghurTypingGame True None Map.empty))) \<and>
   \<not> isl (keyHandler [1576] (run [Start (\<lambda>i. i)] (UyghurTypingGame True None Map.empty))) \<and>
   \<not> isl (keyHandler [1583]
     (run [Start (\<lambda>i. i), KeyDown [1576], KeyDown [1662], KeyDown [1578], KeyDown [1580],
           KeyDown [1670], KeyDown [1582]] (UyghurTypingGame False None Map.empty)))"
proof -
  define six where "six = [Start (\<lambda>i. i), KeyDown [1576], KeyDown [1662], KeyDown [1578], KeyDown [1580],
           KeyDown [1670], KeyDown [1582]]"
  define w1 where "w1 = run six (UyghurTypingGame True None Map.empty)"
  define w2 where "w2 = run [Start (\<lambda>i. i)] (UyghurTypingGame True None Map.empty)"
  define w3 where "w3 = run six (UyghurTypingGame False None Map.empty)"
  have f1: "scoreManager w1 = None \<and> idx w1 = 6 \<and> length (seq w1) = 7 \<and> length (letters w1) = 7 \<and>
            seq w1 ! 6 = [1583] \<and> onGameOver w1"
    unfolding w1_def six_def by (simp add: game_defs)
  have f2: "scoreManager w2 = None \<and> idx w2 = 0 \<and> length (seq w2) = 7 \<and> length (letters w2) = 7 \<and>
            seq w2 ! 0 = [1576]"
    unfolding w2_def by (simp add: game_defs)
  have f3: "scoreManager w3 = None \<and> idx w3 = 6 \<and> length (seq w3) = 7 \<and> length (letters w3) = 7 \<and>
            seq w3 ! 6 = [1583] \<and> \<not> onGameOver w3"
    unfolding w3_def six_def by (simp add: game_defs)
  have "isl (keyHandler [1583] w1)"
    using no_manager[of w1] f1 by (auto simp: MAX_ADVANCE_def)
  moreover have "\<not> isl (keyHandler [1576] w2)"
    using no_manager[of w2] f2 by (auto simp: MAX_ADVANCE_def)
  moreover have "\<not> isl (keyHandler [1583] w3)"
    using no_manager[of w3] f3 by (auto simp: MAX_ADVANCE_def)
  ultimately show ?thesis unfolding w1_def w2_def w3_def six_def by simp
qed

text \<open>
  Claim C3 as stated fails in its last part. With \<open>9007199254740991\<close> stored as the
  cumulative score, the seven additions of 10 of a fully matched session are rounded and
  add 69: \<open>onGameOver\<close> is called with 70 and the cumulative score ends at
  \<open>9007199254741060\<close>. With the malformed text \<open>abc\<close> stored, the cumulative score is
  \<open>NaN\<close> before the session and after it.
\<close>

theorem matched_session_total_rounded:
  "map_option totalScore (scoreManager (UyghurTypingGame True
      (Some (new_ScoreManager None (Map.empty(TOTAL_SCORE_KEY \<mapsto> ascii ''9007199254740991''))))
      (Map.empty(TOTAL_SCORE_KEY \<mapsto> ascii ''9007199254740991'')))) = Some (Num 9007199254740991) \<and>
   gameovers (trace (run
      [ScoreReset, Start (\<lambda>i. i), KeyDown [1576], KeyDown [1662], KeyDown [1578], KeyDown [1580],
       KeyDown [1670], KeyDown [1582], KeyDown [1583]]
      (UyghurTypingGame True
        (Some (new_ScoreManager None (Map.empty(TOTAL_SCORE_KEY \<mapsto> ascii ''9007199254740991''))))
        (Map.empty(TOTAL_SCORE_KEY \<mapsto> ascii ''9007199254740991''))))) = [Num 70] \<and>
   map_option totalScore (scoreManager (run
      [ScoreReset, Start (\<lambda>i. i), KeyDown [1576], KeyDown [1662], KeyDown [1578], KeyDown [1580],
       KeyDown [1670], KeyDown [1582], KeyDown [1583]]
      (UyghurTypingGame True
        (Some (new_ScoreManager None (Map.empty(TOTAL_SCORE_KEY \<mapsto> ascii ''9007199254740991''))))
        (Map.empty(TOTAL_SCORE_KEY \<mapsto> ascii ''9007199254740991''))))) = Some (Num 9007199254741060) \<and>
   map_option totalScore (scoreManager (run
      [ScoreReset, Start (\<lambda>i. i), KeyDown [1576], KeyDown [1662], KeyDown [1578], KeyDown [1580],
       KeyDown [1670], KeyDown [1582], KeyDown [1583]]
      (UyghurTypingGame True
        (Some (new_ScoreManager None (Map.empty(TOTAL_SCORE_KEY \<mapsto> ascii ''abc''))))
        (Map.empty(TOTAL_SCORE_KEY \<mapsto> ascii ''abc''))))) = Some NaN"
  by (simp add: game_defs new_ScoreManager_def loadTotalScore_def parseInt_def ascii_def
      isWhiteSpace_def isDigit_def digitsValue_def updateDisplay_def reset_def
      number_def nearest_def ulp_small ulp_big)

text \<open>
  Claim C3, as the code has it. A session is what \<open>ui.js\<close> starts: \<open>reset\<close> of the score
  manager, then \<open>start\<close>, on a game built with its callback and its manager, after any
  history \<open>pre\<close>. The player matches each of the seven symbols in time (\<open>timely\<close>), and
  anything may follow in the play (\<open>rest\<close>). Then \<open>onGameOver\<close> has been called exactly once
  in the session, with 70, ten points per symbol; every letter was consumed by a match and
  none fell; the session score is 70; and the cumulative score is the one before the
  session with 10 added seven times in JavaScript's arithmetic, which is that score plus
  70 whenever the sum is below \<open>2 ^ 53\<close> in absolute value. Pressing each key less than
  \<open>FALL_DELAY\<close> after the letter became active is such a play, in every session.
\<close>

theorem all_matched_session:
  assumes w0: "w0 = run pre (UyghurTypingGame True (Some m0) ls)"
    and s0: "s0 = start rnd (step ScoreReset w0)"
    and len: "length waits = MAX_ADVANCE" and tm: "timely waits s0"
    and rest: "\<forall>a\<in>set rest. is_play a"
    and w2: "w2 = run (player waits s0 @ rest) s0"
  shows "gameovers (drop (length (trace w0)) (trace w2)) = [Num (10 * int MAX_ADVANCE)] \<and>
         bursts (drop (length (trace w0)) (trace w2)) = MAX_ADVANCE \<and>
         falls (drop (length (trace w0)) (trace w2)) = 0 \<and>
         idx w2 = MAX_ADVANCE \<and>
         map_option score (scoreManager w2) = Some (Num (10 * int MAX_ADVANCE)) \<and>
         map_option totalScore (scoreManager w2) =
           map_option (\<lambda>m. matched_total MAX_ADVANCE (totalScore m)) (scoreManager w0) \<and>
         (map_option totalScore (scoreManager w0) = Some (Num t) \<and> \<bar>t\<bar> + 10 * int MAX_ADVANCE < 2 ^ 53 \<longrightarrow>
            map_option totalScore (scoreManager w2) = Some (Num (t + 10 * int MAX_ADVANCE))) \<and>
         ((\<forall>d\<in>set ds. d < FALL_DELAY) \<and> length ds \<le> MAX_ADVANCE \<longrightarrow>
            timely (map (\<lambda>d. [Elapse d]) ds) s0)"
proof -
  define k where "k = length (trace w0)"
  have "attached (UyghurTypingGame True (Some m0) ls)"
    by (simp add: attached_def UyghurTypingGame_def)
  then have "attached w0" unfolding w0 by (rule run_attached)
  then obtain m where m: "scoreManager w0 = Some m" by (auto simp: attached_def)
  have i0: "inv (step ScoreReset w0)" unfolding w0 by (intro step_inv run_inv inv_new)
  have "matched (length (trace (step ScoreReset w0))) 0 s0"
    unfolding s0 by (rule start_matched[OF i0])
  then have m0: "matched k 0 s0" by (simp add: k_def)
  have pm: "matched k (0 + length waits) (run (player waits s0) s0) \<and>
            (\<forall>a\<in>set (player waits s0). is_play a)"
    by (rule player_matched[OF m0 tm]) (simp add: len)
  define w1 where "w1 = run (player waits s0) s0"
  have b1: "k \<le> length (trace w1)" "bursts (drop k (trace w1)) = MAX_ADVANCE"
    using pm by (simp_all add: matched_def w1_def len)
  have play: "\<forall>a\<in>set (player waits s0 @ rest). is_play a" using pm rest by auto
  have a: "acc k (totalScore m) w2" and i: "inv w2"
    using session_acc[OF m[unfolded w0] play, of rnd] unfolding w0 w2 s0 k_def by simp_all
  have "w2 = run rest w1" by (simp add: w2 w1_def run_append)
  then obtain es where es: "trace w2 = trace w1 @ es" using run_grows[OF rest, of w1] by auto
  have "MAX_ADVANCE \<le> bursts (drop k (trace w2))" using b1 es by simp
  moreover have "idx w2 = bursts (drop k (trace w2)) + falls (drop k (trace w2))"
    using a by (simp add: acc_def)
  moreover have "idx w2 \<le> MAX_ADVANCE" using i by (simp add: inv_def)
  ultimately have b: "bursts (drop k (trace w2)) = MAX_ADVANCE" "falls (drop k (trace w2)) = 0"
    "idx w2 = MAX_ADVANCE" by simp_all
  have sc: "gameovers (drop k (trace w2)) = [Num (10 * int MAX_ADVANCE)]"
    "map_option score (scoreManager w2) = Some (Num (10 * int MAX_ADVANCE))"
    "map_option totalScore (scoreManager w2) = Some (matched_total MAX_ADVANCE (totalScore m))"
    using a b by (auto simp: acc_def)
  have sf: "map_option totalScore (scoreManager w0) = Some (Num t) \<and> \<bar>t\<bar> + 10 * int MAX_ADVANCE < 2 ^ 53 \<longrightarrow>
            map_option totalScore (scoreManager w2) = Some (Num (t + 10 * int MAX_ADVANCE))"
    using sc(3) m matched_total_safe[of t MAX_ADVANCE] by auto
  have te: "(\<forall>d\<in>set ds. d < FALL_DELAY) \<and> length ds \<le> MAX_ADVANCE \<longrightarrow>
            timely (map (\<lambda>d. [Elapse d]) ds) s0"
    using timely_elapse[OF m0, of ds] by simp
  show ?thesis using b sc sf te m unfolding k_def by simp
qed

text \<open>C3 on a fresh game: the second key comes after the warning of the first letter has
  fired, a wrong key precedes the third, the fourth comes after half a second; after the
  end a timer fires and the last key is pressed again.\<close>

theorem all_matched_session_witness:
  "player [[], [Elapse 7000, Fire], [KeyDown [65]], [Elapse 500], [], [], []]
     (start (\<lambda>i. i) (step ScoreReset
        (run [] (UyghurTypingGame True (Some (new_ScoreManager None Map.empty)) Map.empty)))) =
     [KeyDown [1576], Elapse 7000, Fire, KeyDown [1662], KeyDown [65], KeyDown [1578], Elapse 500, KeyDown [1580],
      KeyDown [1670], KeyDown [1582], KeyDown [1583]] \<and>
   gameovers (drop (length (trace (run [] (UyghurTypingGame True (Some (new_ScoreManager None Map.empty)) Map.empty))))
     (trace (run
        (player [[], [Elapse 7000, Fire], [KeyDown [65]], [Elapse 500], [], [], []]
           (start (\<lambda>i. i) (step ScoreReset
              (run [] (UyghurTypingGame True (Some (new_ScoreManager None Map.empty)) Map.empty)))) @
         [Fire, KeyDown [1583], Fire])
        (start (\<lambda>i. i) (step ScoreReset
           (run [] (UyghurTypingGame True (Some (new_ScoreManager None Map.empty)) Map.empty))))))) = [Num 70] \<and>
   map_option totalScore (scoreManager (run
        (player [[], [Elapse 7000, Fire], [KeyDown [65]], [Elapse 500], [], [], []]
           (start (\<lambda>i. i) (step ScoreReset
              (run [] (UyghurTypingGame True (Some (new_ScoreManager None Map.empty)) Map.empty)))) @
         [Fire, KeyDown [1583], Fire])
        (start (\<lambda>i. i) (step ScoreReset
           (run [] (UyghurTypingGame True (Some (new_ScoreManager None Map.empty)) Map.empty)))))) = Some (Num 70)"
proof -
  define w0 where "w0 = run [] (UyghurTypingGame True (Some (new_ScoreManager None Map.empty)) Map.empty)"
  define s0 where "s0 = start (\<lambda>i. i) (step ScoreReset w0)"
  define waits :: "action list list" where "waits = [[], [Elapse 7000, Fire], [KeyDown [65]], [Elapse 500], [], [], []]"
  define rest where "rest = [Fire, KeyDown [1583], Fire]"
  define w2 where "w2 = run (player waits s0 @ rest) s0"
  have len: "length waits = MAX_ADVANCE" by (simp add: waits_def MAX_ADVANCE_def)
  have r: "\<forall>a\<in>set rest. is_play a" by (simp add: rest_def)
  have e: "timely waits s0 \<and>
           player waits s0 = [KeyDown [1576], Elapse 7000, Fire, KeyDown [1662], KeyDown [65], KeyDown [1578], Elapse 500,
              KeyDown [1580], KeyDown [1670], KeyDown [1582], KeyDown [1583]]"
    unfolding s0_def w0_def waits_def
    by (simp add: game_defs in_time_def press_def updateDisplay_def reset_def new_ScoreManager_def
        loadTotalScore_def number_safe)
  have t0: "map_option totalScore (scoreManager w0) = Some (Num 0)"
    unfolding w0_def
    by (simp add: game_defs updateDisplay_def new_ScoreManager_def loadTotalScore_def)
  note th = all_matched_session[OF w0_def s0_def len conjunct1[OF e] r w2_def, where t = 0 and ds = "[]"]
  have g: "gameovers (drop (length (trace w0)) (trace w2)) = [Num (10 * int MAX_ADVANCE)]"
    using th by blast
  have "map_option totalScore (scoreManager w0) = Some (Num 0) \<and> \<bar>0\<bar> + 10 * int MAX_ADVANCE < 2 ^ 53 \<longrightarrow>
          map_option totalScore (scoreManager w2) = Some (Num (0 + 10 * int MAX_ADVANCE))"
    using th by blast
  moreover have "\<bar>0\<bar> + 10 * int MAX_ADVANCE < 2 ^ 53" by (simp add: MAX_ADVANCE_def)
  ultimately have "map_option totalScore (scoreManager w2) = Some (Num (0 + 10 * int MAX_ADVANCE))"
    using t0 by blast
  then have "gameovers (drop (length (trace w0)) (trace w2)) = [Num 70] \<and>
             map_option totalScore (scoreManager w2) = Some (Num 70)"
    using g by (simp add: MAX_ADVANCE_def)
  then have "player waits s0 =
       [KeyDown [1576], Elapse 7000, Fire, KeyDown [1662], KeyDown [65], KeyDown [1578], Elapse 500, KeyDown [1580],
        KeyDown [1670], KeyDown [1582], KeyDown [1583]] \<and>
     gameovers (drop (length (trace w0)) (trace (run (player waits s0 @ rest) s0))) = [Num 70] \<and>
     map_option totalScore (scoreManager (run (player waits s0 @ rest) s0)) = Some (Num 70)"
    using e unfolding w2_def by blast
  then show ?thesis unfolding s0_def w0_def waits_def rest_def .
qed

text \<open>
  Claim C4. First, in any state a game can reach: when the timer that fires next is an
  expiry timeout, it is the one of the letter at the cursor; after it has run no flicker
  interval on that letter is pending, the fall of the letter is recorded, the cursor has
  advanced by exactly one, and the score manager and the storage are as before. Second,
  in a session (started as \<open>ui.js\<close> does, after any history) in which no key is pressed,
  the session score stays 0, the cumulative score stays what it was,
  and once the cursor has reached the limit \<open>onGameOver\<close> has been called exactly once,
  with 0. Third, that call does come: from the start of any such session, some number of
  turns of the timer queue brings the cursor to the limit, with the one call
  \<open>onGameOver(0)\<close> and the cumulative score as before. On a freshly constructed game 91
  turns do (seven letters, each with its warning, eleven toggles and its expiry): the
  session ends at 70000 ms and no timer is left.
\<close>

theorem expiry_without_points:
  "(let w = run hist (UyghurTypingGame c m ls)
    in earliest (timers w) = Some (h, tm) \<and> cb tm = ExpiryCb wh el \<longrightarrow>
         idx w < length (letters w) \<and> el = Some (letters w ! idx w) \<and>
         (\<forall>y\<in>set (timers (step Fire w)). cb (snd y) \<noteq> FlickerCb el) \<and>
         (\<exists>es. trace (step Fire w) = trace w @ Fall (letters w ! idx w) # es) \<and>
         idx (step Fire w) = idx w + 1 \<and>
         scoreManager (step Fire w) = scoreManager w \<and>
         localStorage (step Fire w) = localStorage w) \<and>
   (let w0 = run pre (UyghurTypingGame True (Some m0) ls0);
        w2 = run acts (start rnd (step ScoreReset w0))
    in (\<forall>a\<in>set acts. is_passive a) \<longrightarrow>
         map_option score (scoreManager w2) = Some (Num 0) \<and>
         map_option totalScore (scoreManager w2) = map_option totalScore (scoreManager w0) \<and>
         gameovers (drop (length (trace w0)) (trace w2)) =
           (if MAX_ADVANCE \<le> idx w2 then [Num 0] else [])) \<and>
   (\<exists>n. let w0 = run pre (UyghurTypingGame True (Some m0) ls0);
             w2 = run (replicate n Fire) (start rnd (step ScoreReset w0))
         in MAX_ADVANCE \<le> idx w2 \<and>
            gameovers (drop (length (trace w0)) (trace w2)) = [Num 0] \<and>
            map_option totalScore (scoreManager w2) = map_option totalScore (scoreManager w0)) \<and>
   (let w = run (replicate 91 Fire)
              (start rnd (step ScoreReset (UyghurTypingGame True (Some m0) ls0)))
    in gameovers (trace w) = [Num 0] \<and> timers w = [] \<and> clock w = 70000 \<and> idx w = MAX_ADVANCE)"
proof -
  define w where "w = run hist (UyghurTypingGame c m ls)"
  have ti: "tidy w \<and> inv w" unfolding w_def by (rule run_tidy_inv[OF tidy_new inv_new])
  have a: "earliest (timers w) = Some (h, tm) \<and> cb tm = ExpiryCb wh el \<longrightarrow>
         idx w < length (letters w) \<and> el = Some (letters w ! idx w) \<and>
         (\<forall>y\<in>set (timers (step Fire w)). cb (snd y) \<noteq> FlickerCb el) \<and>
         (\<exists>es. trace (step Fire w) = trace w @ Fall (letters w ! idx w) # es) \<and>
         idx (step Fire w) = idx w + 1 \<and>
         scoreManager (step Fire w) = scoreManager w \<and>
         localStorage (step Fire w) = localStorage w"
  proof
    assume h: "earliest (timers w) = Some (h, tm) \<and> cb tm = ExpiryCb wh el"
    have e: "idx w < length (letters w) \<and> el = Some (letters w ! idx w) \<and>
         (\<forall>y\<in>set (timers (step Fire w)). cb (snd y) \<noteq> FlickerCb el) \<and>
         idx (step Fire w) = idx w + 1 \<and>
         scoreManager (step Fire w) = scoreManager w \<and>
         localStorage (step Fire w) = localStorage w"
      using expiry_fire_effect[of w h tm wh el] ti h by blast
    then have "cb tm = ExpiryCb wh (Some (letters w ! idx w))" using h by simp
    then have "\<exists>es. trace (step Fire w) = trace w @ Fall (letters w ! idx w) # es"
      using expiry_fire_trace[of w h tm wh] ti h by blast
    with e show "idx w < length (letters w) \<and> el = Some (letters w ! idx w) \<and>
         (\<forall>y\<in>set (timers (step Fire w)). cb (snd y) \<noteq> FlickerCb el) \<and>
         (\<exists>es. trace (step Fire w) = trace w @ Fall (letters w ! idx w) # es) \<and>
         idx (step Fire w) = idx w + 1 \<and>
         scoreManager (step Fire w) = scoreManager w \<and>
         localStorage (step Fire w) = localStorage w" by blast
  qed
  have b: "(\<forall>a\<in>set acts. is_passive a) \<longrightarrow>
         map_option score (scoreManager (run acts (start rnd (step ScoreReset (run pre (UyghurTypingGame True (Some m0) ls0)))))) = Some (Num 0) \<and>
         map_option totalScore (scoreManager (run acts (start rnd (step ScoreReset (run pre (UyghurTypingGame True (Some m0) ls0)))))) =
           map_option totalScore (scoreManager (run pre (UyghurTypingGame True (Some m0) ls0))) \<and>
         gameovers (drop (length (trace (run pre (UyghurTypingGame True (Some m0) ls0))))
            (trace (run acts (start rnd (step ScoreReset (run pre (UyghurTypingGame True (Some m0) ls0))))))) =
           (if MAX_ADVANCE \<le> idx (run acts (start rnd (step ScoreReset (run pre (UyghurTypingGame True (Some m0) ls0)))))
            then [Num 0] else [])"
    using passive_session[OF refl refl, of acts rnd pre m0 ls0] by blast
  have c: "\<exists>n. let w0 = run pre (UyghurTypingGame True (Some m0) ls0);
             w2 = run (replicate n Fire) (start rnd (step ScoreReset w0))
         in MAX_ADVANCE \<le> idx w2 \<and>
            gameovers (drop (length (trace w0)) (trace w2)) = [Num 0] \<and>
            map_option totalScore (scoreManager w2) = map_option totalScore (scoreManager w0)"
  proof -
    obtain n where n: "MAX_ADVANCE \<le> idx (run (replicate n Fire)
          (start rnd (step ScoreReset (run pre (UyghurTypingGame True (Some m0) ls0)))))"
      using any_session_ends by blast
    have p: "\<forall>a\<in>set (replicate n Fire). is_passive a" by simp
    show ?thesis
      using passive_session[OF refl refl p, of rnd pre m0 ls0] n
      unfolding Let_def by (intro exI[of _ n]) simp
  qed
  show ?thesis
    using a b c fresh_session_ends[of rnd m0 ls0] unfolding w_def Let_def by blast
qed

text \<open>C4 at the first expiry of a fresh session, and on the fresh session left alone.\<close>

theorem expiry_without_points_witness:
  "idx (step Fire (run (Start (\<lambda>i. i) # replicate 12 Fire) (UyghurTypingGame True None Map.empty))) = 1 \<and>
   scoreManager (step Fire (run (Start (\<lambda>i. i) # replicate 12 Fire) (UyghurTypingGame True None Map.empty))) = None \<and>
   map_option score (scoreManager (run (replicate 91 Fire) (start (\<lambda>i. i) (step ScoreReset
      (run [] (UyghurTypingGame True (Some (new_ScoreManager None Map.empty)) Map.empty)))))) = Some (Num 0)"
proof -
  define w where "w = run (Start (\<lambda>i. i) # replicate 12 Fire) (UyghurTypingGame True None Map.empty)"
  have e: "earliest (timers w) = Some (2, Timer 10000 None (ExpiryCb 1 (Some 0))) \<and> idx w = 0 \<and>
           scoreManager w = None"
    unfolding w_def
    by (simp add: run_def UyghurTypingGame_def resetState_def clearTimer_def start_def render_def
      clearRender_def newSequence_def startTimer_def setTimeout_def setInterval_def nextLetter_def
      shiftLetters_def fire_def endGame_def LETTER_COUNT_def MAX_ADVANCE_def FLICKER_DELAY_def
      FALL_DELAY_def Let_def upt_rec replicate_numeral_Cons)
  have p: "\<forall>a\<in>set (replicate 91 Fire). is_passive a" by simp
  have "idx (step Fire w) = 1 \<and> scoreManager (step Fire w) = None"
    using expiry_without_points[of "Start (\<lambda>i. i) # replicate 12 Fire" True None Map.empty
        2 "Timer 10000 None (ExpiryCb 1 (Some 0))" 1 "Some 0"] e
    unfolding w_def[symmetric] Let_def by simp
  moreover have "map_option score (scoreManager (run (replicate 91 Fire) (start (\<lambda>i. i) (step ScoreReset
      (run [] (UyghurTypingGame True (Some (new_ScoreManager None Map.empty)) Map.empty)))))) = Some (Num 0)"
    using expiry_without_points[of _ _ _ _ _ _ _ _ "[]" "new_ScoreManager None Map.empty" Map.empty
        "replicate 91 Fire" "\<lambda>i. i"] p
    unfolding Let_def by blast
  ultimately show ?thesis unfolding w_def by blast
qed

end
